theory Spec2Isabelle
  imports Complex_Main "HOL-Library.Word" "HOL-Library.Multiset"
begin

unbundle bit_operations_syntax

section \<open>The dual-resident stream of cudatypes.h\<close>

text \<open>
  The development embeds \<^verbatim>\<open>CUDAStream<T>\<close> of
  \<^verbatim>\<open>platforms/cuda/src/kernels/cudatypes.h\<close>: its constructor, \<^verbatim>\<open>Allocate\<close>,
  \<^verbatim>\<open>Upload\<close>, \<^verbatim>\<open>Download\<close>, \<^verbatim>\<open>Collapse\<close> and \<^verbatim>\<open>operator[]\<close>.

  \<^item> \<^verbatim>\<open>unsigned int\<close> is a 32-bit word; every product, sum and quotient of the source is
    taken on words, so it wraps as the C++ does.
  \<^item> A memory cell is an \<open>'a option\<close>: \<open>None\<close> is the indeterminate content of storage
    that \<^verbatim>\<open>new T[n]\<close> or \<^verbatim>\<open>cudaMalloc\<close> has handed out and nobody has written yet.
  \<^item> A block of storage is the list of its cells. A pointer into a block is the offset
    (in elements) from the block's base, so \<^verbatim>\<open>_pSysData + i * _stride\<close> is the offset
    \<open>unat (i * stride)\<close>; an entry of a view table that was never assigned is \<open>None\<close>.
    Forming a pointer is arithmetic on offsets and cannot fail; every access through one
    is checked against the block.
  \<^item> What C++ leaves undefined (an access outside a block, a division by zero, the use of
    an indeterminate pointer) and what \<^verbatim>\<open>RTERROR\<close> does (print and \<^verbatim>\<open>exit(-1)\<close>) are
    values of type \<open>failure\<close>; an operation returns \<open>failure + result\<close>.
  \<^item> \<^verbatim>\<open>new\<close> itself is taken to succeed (\<^verbatim>\<open>std::bad_alloc\<close> is not modelled); the CUDA
    runtime is outside the repository, so the status each of its calls returns is a
    parameter of the operation that makes the call.
  \<^item> Byte counts are \<^verbatim>\<open>size_t\<close> of 64 bits: \<^verbatim>\<open>_stride * _subStreams * sizeof(T)\<close> is the
    32-bit product \<^verbatim>\<open>_stride * _subStreams\<close> widened and then scaled, so the transfers
    and the device allocation are counted in elements, \<open>unat (stride * subStreams)\<close>.
  \<^item> The members \<^verbatim>\<open>_length\<close>, \<^verbatim>\<open>_subStreams\<close>, ... are the fields \<open>m_length\<close>,
    \<open>m_subStreams\<close>, ... (an Isabelle name cannot start with an underscore).
  \<^item> \<open>cudaError_t\<close> keeps what the code looks at: \<^verbatim>\<open>cudaSuccess\<close> or another code.
    \<open>ProcessExit c msg\<close> is \<^verbatim>\<open>exit(c)\<close> after \<^verbatim>\<open>RTERROR\<close> has printed \<open>msg\<close> for its
    argument \<^verbatim>\<open>s\<close> (followed by the runtime's error string, which is not modelled).
    \<^verbatim>\<open>RTERROR\<close> is handed \<^verbatim>\<open>(_name + "...").c_str()\<close> and prints it with \<^verbatim>\<open>%s\<close>, so
    \<open>msg\<close> is that text up to its first NUL character (\<open>c_str\<close>).
\<close>

type_synonym u32 = "32 word"

datatype cudaError_t = cudaSuccess | cudaError nat

datatype failure =
    ProcessExit int string
  | DivideByZero
  | OutOfBounds
  | WildPointer

record 'a CUDAStream =
  m_length :: u32
  m_subStreams :: u32
  m_stride :: u32
  m_pSysStream :: "nat option list"
  m_pDevStream :: "nat option list"
  m_pSysData :: "'a option list"
  m_pDevData :: "'a option list"
  m_name :: string

text \<open>
  The live allocations of the process, as the sizes (in elements) of the blocks that have
  been allocated and not released, oldest first.
\<close>

record heap =
  hostBlocks :: "nat list"
  devBlocks :: "nat list"

subsection \<open>Failure-propagating sequencing, memory access, counted loops\<close>

definition bnd :: "failure + 'b \<Rightarrow> ('b \<Rightarrow> failure + 'c) \<Rightarrow> failure + 'c" where
  "bnd r f = (case r of Inl e \<Rightarrow> Inl e | Inr x \<Rightarrow> f x)"

text \<open>
  What \<^verbatim>\<open>printf("%s", t.c_str())\<close> prints of a \<^verbatim>\<open>std::string\<close> \<open>t\<close>: the characters
  before the first NUL (all of them when there is none).
\<close>

definition c_str :: "string \<Rightarrow> string" where
  "c_str t = takeWhile (\<lambda>c. c \<noteq> CHR 0x00) t"

definition rd :: "'c list \<Rightarrow> nat \<Rightarrow> failure + 'c" where
  "rd m p = (if p < length m then Inr (m ! p) else Inl OutOfBounds)"

definition wr :: "'c list \<Rightarrow> nat \<Rightarrow> 'c \<Rightarrow> failure + 'c list" where
  "wr m p v = (if p < length m then Inr (m[p := v]) else Inl OutOfBounds)"

definition deref :: "nat option \<Rightarrow> failure + nat" where
  "deref p = (case p of None \<Rightarrow> Inl WildPointer | Some b \<Rightarrow> Inr b)"

fun forM :: "'i list \<Rightarrow> ('i \<Rightarrow> 's \<Rightarrow> failure + 's) \<Rightarrow> 's \<Rightarrow> failure + 's" where
  "forM [] body st = Inr st"
| "forM (i # is) body st = bnd (body i st) (forM is body)"

text \<open>
  \<^verbatim>\<open>for (unsigned int i = 0; i < n; i++)\<close> runs its body for \<open>i = 0, 1, ..., n - 1\<close>:
  the counter is compared before each increment, so it never wraps.
\<close>

definition range32 :: "u32 \<Rightarrow> u32 list" where
  "range32 n = map of_nat [0..<unat n]"

subsection \<open>Construction\<close>

text \<open>
  The body of the loop that (re)builds the two view tables, in \<^verbatim>\<open>Allocate\<close> and again in
  \<^verbatim>\<open>Collapse\<close>:
  \<^verbatim>\<open>_pSysStream[i] = _pSysData + i * stride; _pDevStream[i] = _pDevData + i * stride;\<close>
\<close>

definition set_views :: "u32 \<Rightarrow> u32 \<Rightarrow> nat option list \<times> nat option list
    \<Rightarrow> failure + (nat option list \<times> nat option list)" where
  "set_views stride i = (\<lambda>(sysS, devS).
     bnd (wr sysS (unat i) (Some (unat (i * stride)))) (\<lambda>sysS'.
     bnd (wr devS (unat i) (Some (unat (i * stride)))) (\<lambda>devS'.
     Inr (sysS', devS'))))"

text \<open>
  \<^verbatim>\<open>Allocate\<close>: three host allocations, then \<^verbatim>\<open>cudaMalloc\<close>, whose status is
  \<open>status\<close>; \<^verbatim>\<open>RTERROR\<close> prints the message (a C string) and calls \<^verbatim>\<open>exit(-1)\<close>
  when it is not \<^verbatim>\<open>cudaSuccess\<close>. The heap is returned as it is when the call ends, also when the
  process exits.
\<close>

definition Allocate :: "cudaError_t \<Rightarrow> heap \<Rightarrow> 'a CUDAStream \<Rightarrow> (failure + 'a CUDAStream) \<times> heap" where
  "Allocate status h s =
    (let sysStream = replicate (unat (m_subStreams s)) None;
         devStream = replicate (unat (m_subStreams s)) None;
         sysData = replicate (unat (m_subStreams s * m_stride s)) None;
         h1 = h\<lparr>hostBlocks := hostBlocks h @
                [unat (m_subStreams s), unat (m_subStreams s), unat (m_subStreams s * m_stride s)]\<rparr>
     in if status \<noteq> cudaSuccess
        then (Inl (ProcessExit (- 1)
                    (c_str (m_name s @ '': cudaMalloc in CUDAStream::Allocate failed''))), h1)
        else
          let devData = replicate (unat (m_stride s * m_subStreams s)) None;
              h2 = h1\<lparr>devBlocks := devBlocks h1 @ [unat (m_stride s * m_subStreams s)]\<rparr>
          in (bnd (forM (range32 (m_subStreams s)) (set_views (m_stride s)) (sysStream, devStream))
                (\<lambda>(sysS, devS). Inr (s\<lparr>m_pSysStream := sysS, m_pDevStream := devS,
                                        m_pSysData := sysData, m_pDevData := devData\<rparr>)),
              h2))"

text \<open>
  \<^verbatim>\<open>CUDAStream(unsigned int length, unsigned int subStreams, std::string name)\<close>.
  The member initialisers set the three counts and the name; the pointer members have no
  value until \<^verbatim>\<open>Allocate\<close> assigns them (here: empty blocks). The parameter
  \<^verbatim>\<open>length\<close> is \<open>len\<close>. The three other constructors take \<^verbatim>\<open>int\<close> for one or both
  counts and have the same initialisers and body; they are this one after the conversion
  of a non-negative \<^verbatim>\<open>int\<close> to \<^verbatim>\<open>unsigned int\<close>.
\<close>

definition CUDAStream_ctor :: "cudaError_t \<Rightarrow> heap \<Rightarrow> u32 \<Rightarrow> u32 \<Rightarrow> string
    \<Rightarrow> (failure + 'a CUDAStream) \<times> heap" where
  "CUDAStream_ctor status h len subStreams name =
     Allocate status h
       \<lparr>m_length = len, m_subStreams = subStreams,
        m_stride = (len + 0xf) AND 0xfffffff0,
        m_pSysStream = [], m_pDevStream = [], m_pSysData = [], m_pDevData = [],
        m_name = name\<rparr>"

subsection \<open>Upload and Download\<close>

text \<open>
  \<^verbatim>\<open>cudaMemcpy(dst, src, n * sizeof(T), kind)\<close> copies the first \<open>n\<close> elements of
  \<open>src\<close> over the first \<open>n\<close> elements of \<open>dst\<close>.
\<close>

definition memcpy_elems :: "'c list \<Rightarrow> 'c list \<Rightarrow> nat \<Rightarrow> failure + 'c list" where
  "memcpy_elems dst src n =
     (if n \<le> length dst \<and> n \<le> length src then Inr (take n src @ drop n dst) else Inl OutOfBounds)"

definition Upload :: "cudaError_t \<Rightarrow> 'a CUDAStream \<Rightarrow> failure + 'a CUDAStream" where
  "Upload status s =
     (if status \<noteq> cudaSuccess
      then Inl (ProcessExit (- 1) (c_str (m_name s @ '': cudaMemcpy in CUDAStream::Upload failed'')))
      else bnd (memcpy_elems (m_pDevData s) (m_pSysData s) (unat (m_stride s * m_subStreams s)))
             (\<lambda>dev. Inr (s\<lparr>m_pDevData := dev\<rparr>)))"

definition Download :: "cudaError_t \<Rightarrow> 'a CUDAStream \<Rightarrow> failure + 'a CUDAStream" where
  "Download status s =
     (if status \<noteq> cudaSuccess
      then Inl (ProcessExit (- 1) (c_str (m_name s @ '': cudaMemcpy in CUDAStream::Download failed'')))
      else bnd (memcpy_elems (m_pSysData s) (m_pDevData s) (unat (m_stride s * m_subStreams s)))
             (\<lambda>host. Inr (s\<lparr>m_pSysData := host\<rparr>)))"

subsection \<open>Collapse\<close>

text \<open>
  The body of the first loop nest, for one \<open>(i, j)\<close>:
  \<^verbatim>\<open>pTemp[stream * newstride + pos] = _pSysStream[j][i]; stream++;
  if (stream == newstreams) { stream = 0; pos++; }\<close>
  The loop state is the scratch block, \<open>stream\<close>, \<open>pos\<close> and the indices of the scratch
  block written so far.
\<close>

definition copy_in :: "'a CUDAStream \<Rightarrow> u32 \<Rightarrow> u32 \<Rightarrow> u32 \<Rightarrow> u32
    \<Rightarrow> 'a option list \<times> u32 \<times> u32 \<times> nat list
    \<Rightarrow> failure + ('a option list \<times> u32 \<times> u32 \<times> nat list)" where
  "copy_in s newstreams newstride i j = (\<lambda>(pTemp, stream, pos, written).
     bnd (rd (m_pSysStream s) (unat j)) (\<lambda>p.
     bnd (deref p) (\<lambda>base.
     bnd (rd (m_pSysData s) (base + unat i)) (\<lambda>v.
     bnd (wr pTemp (unat (stream * newstride + pos)) v) (\<lambda>pTemp'.
     Inr (if stream + 1 = newstreams
          then (pTemp', 0, pos + 1, written @ [unat (stream * newstride + pos)])
          else (pTemp', stream + 1, pos, written @ [unat (stream * newstride + pos)])))))))"

text \<open>
  The body of the last loop nest, for one \<open>(i, j)\<close>:
  \<^verbatim>\<open>_pSysStream[j][i] = pTemp[j * newstride + i];\<close>
  The loop state is the host block and the indices of the host block written so far.
\<close>

definition copy_back :: "nat option list \<Rightarrow> 'a option list \<Rightarrow> u32 \<Rightarrow> u32 \<Rightarrow> u32
    \<Rightarrow> 'a option list \<times> nat list \<Rightarrow> failure + ('a option list \<times> nat list)" where
  "copy_back sysS pTemp newstride i j = (\<lambda>(host, written).
     bnd (rd pTemp (unat (j * newstride + i))) (\<lambda>v.
     bnd (rd sysS (unat j)) (\<lambda>p.
     bnd (deref p) (\<lambda>base.
     bnd (wr host (base + unat i) v) (\<lambda>host'.
     Inr (host', written @ [base + unat i]))))))"

text \<open>
  \<^verbatim>\<open>Collapse(newstreams, interleave)\<close>, returning next to the new state the indices
  written into the scratch block and into the host block, in the order of the writes.
  The scratch block is allocated and released inside the call, so the heap is the same
  before and after.
\<close>

definition Collapse_run :: "u32 \<Rightarrow> u32 \<Rightarrow> 'a CUDAStream
    \<Rightarrow> failure + ('a CUDAStream \<times> nat list \<times> nat list)" where
  "Collapse_run newstreams interleave s =
    (let pTemp = replicate (unat (m_subStreams s * m_stride s)) None
     in if newstreams = 0 then Inl DivideByZero
        else
          let newstride = m_stride s * m_subStreams s div newstreams;
              newlength = m_length s * m_subStreams s div newstreams
          in bnd (forM (range32 (m_length s))
                    (\<lambda>i. forM (range32 (m_subStreams s)) (copy_in s newstreams newstride i))
                    (pTemp, 0, 0, []))
               (\<lambda>(pTemp', stream, pos, scratchWrites).
             bnd (forM (range32 newstreams) (set_views newstride) (m_pSysStream s, m_pDevStream s))
               (\<lambda>(sysS, devS).
             bnd (forM (range32 newlength)
                    (\<lambda>i. forM (range32 newstreams) (copy_back sysS pTemp' newstride i))
                    (m_pSysData s, []))
               (\<lambda>(host, hostWrites).
             Inr (s\<lparr>m_length := newlength, m_subStreams := newstreams, m_stride := newstride,
                     m_pSysStream := sysS, m_pDevStream := devS, m_pSysData := host\<rparr>,
                  scratchWrites, hostWrites)))))"

definition Collapse :: "u32 \<Rightarrow> u32 \<Rightarrow> 'a CUDAStream \<Rightarrow> failure + 'a CUDAStream" where
  "Collapse newstreams interleave s = map_sum id fst (Collapse_run newstreams interleave s)"

subsection \<open>Element access\<close>

text \<open>
  \<^verbatim>\<open>T& operator[](int index)\<close> is \<^verbatim>\<open>_pSysData[index]\<close>: a read and a write through the
  reference it returns.
\<close>

definition subscript_get :: "'a CUDAStream \<Rightarrow> int \<Rightarrow> failure + 'a option" where
  "subscript_get s index = (if index < 0 then Inl OutOfBounds else rd (m_pSysData s) (nat index))"

definition subscript_set :: "'a CUDAStream \<Rightarrow> int \<Rightarrow> 'a \<Rightarrow> failure + 'a CUDAStream" where
  "subscript_set s index v =
     (if index < 0 then Inl OutOfBounds
      else bnd (wr (m_pSysData s) (nat index) (Some v)) (\<lambda>host. Inr (s\<lparr>m_pSysData := host\<rparr>)))"

text \<open>
  What a caller reads through the view table: \<^verbatim>\<open>_pSysStream[j][i]\<close> for \<open>i\<close> in
  \<open>[0, _length)\<close>.
\<close>

definition substream :: "'a CUDAStream \<Rightarrow> nat \<Rightarrow> 'a option list" where
  "substream s j =
     (case m_pSysStream s ! j of
        None \<Rightarrow> []
      | Some base \<Rightarrow> map (\<lambda>i. m_pSysData s ! (base + i)) [0..<unat (m_length s)])"

subsection \<open>Caller code and example buffers\<close>

text \<open>
  A caller fills sub-stream \<open>j\<close> through the public view table,
  \<^verbatim>\<open>stream._pSysStream[j][i] = v\<close> for \<open>i = 0, 1, ...\<close>.
\<close>

definition set_elem :: "'a CUDAStream \<Rightarrow> nat \<Rightarrow> nat \<Rightarrow> 'a \<Rightarrow> failure + 'a CUDAStream" where
  "set_elem s j i v =
     bnd (rd (m_pSysStream s) j) (\<lambda>p.
     bnd (deref p) (\<lambda>base.
     bnd (wr (m_pSysData s) (base + i) (Some v)) (\<lambda>host.
     Inr (s\<lparr>m_pSysData := host\<rparr>))))"

definition populate :: "nat \<Rightarrow> 'a list \<Rightarrow> 'a CUDAStream \<Rightarrow> failure + 'a CUDAStream" where
  "populate j vs s = forM (zip [0..<length vs] vs) (\<lambda>(i, v) s. set_elem s j i v) s"

text \<open>A process that holds no allocation yet.\<close>

definition no_blocks :: heap where
  "no_blocks = \<lparr>hostBlocks = [], devBlocks = []\<rparr>"

text \<open>
  The example of the specification: a stream of \<^verbatim>\<open>float\<close> with length 20 and two
  sub-streams, sub-stream 0 filled with 0..19 and sub-stream 1 with 100..119. The values
  are small integers, which \<^verbatim>\<open>float\<close> represents exactly; they are written as reals.
  \<open>scenario\<close> runs the constructor and the fills; \<open>scenario_buffer\<close> is the state they
  produce, written out.
\<close>

definition scenario :: "failure + real CUDAStream" where
  "scenario =
     bnd (fst (CUDAStream_ctor cudaSuccess no_blocks 20 2 ''forces''))
       (\<lambda>b. bnd (populate 0 [0, 1, 2, 3, 4, 5, 6, 7, 8, 9, 10, 11, 12, 13, 14, 15, 16, 17, 18, 19] b)
         (populate 1 [100, 101, 102, 103, 104, 105, 106, 107, 108, 109,
                      110, 111, 112, 113, 114, 115, 116, 117, 118, 119]))"

definition scenario_buffer :: "real CUDAStream" where
  "scenario_buffer =
     \<lparr>m_length = 20, m_subStreams = 2, m_stride = 32,
      m_pSysStream = [Some 0, Some 32], m_pDevStream = [Some 0, Some 32],
      m_pSysData =
        map Some [0, 1, 2, 3, 4, 5, 6, 7, 8, 9, 10, 11, 12, 13, 14, 15, 16, 17, 18, 19]
        @ replicate 12 None
        @ map Some [100, 101, 102, 103, 104, 105, 106, 107, 108, 109,
                    110, 111, 112, 113, 114, 115, 116, 117, 118, 119]
        @ replicate 12 None,
      m_pDevData = replicate 64 None,
      m_name = ''forces''\<rparr>"

text \<open>
  Two more buffers: three sub-streams of length 1 holding 1, 2 and 3, and one sub-stream of
  length 2 holding 7 and 8.
\<close>

definition triple :: "failure + real CUDAStream" where
  "triple =
     bnd (fst (CUDAStream_ctor cudaSuccess no_blocks 1 3 ''triple''))
       (\<lambda>b. bnd (populate 0 [1] b) (\<lambda>b. bnd (populate 1 [2] b) (populate 2 [3])))"

definition triple_buffer :: "real CUDAStream" where
  "triple_buffer =
     \<lparr>m_length = 1, m_subStreams = 3, m_stride = 16,
      m_pSysStream = [Some 0, Some 16, Some 32], m_pDevStream = [Some 0, Some 16, Some 32],
      m_pSysData = Some 1 # replicate 15 None @ Some 2 # replicate 15 None @ Some 3 # replicate 15 None,
      m_pDevData = replicate 48 None,
      m_name = ''triple''\<rparr>"

definition single :: "failure + real CUDAStream" where
  "single =
     bnd (fst (CUDAStream_ctor cudaSuccess no_blocks 2 1 ''single'')) (populate 0 [7, 8])"

section \<open>Specification vocabulary\<close>

text \<open>
  A stream laid out in \<open>n\<close> sub-streams of stride \<open>stride\<close> and read round-robin
  (element \<open>i\<close> of sub-stream \<open>j\<close> is number \<open>k = i * n + j\<close>) keeps its \<open>k\<close>-th value at
  offset \<open>slot n stride k\<close> of the block.
\<close>

definition slot :: "nat \<Rightarrow> nat \<Rightarrow> nat \<Rightarrow> nat" where
  "slot n stride k = (k mod n) * stride + k div n"

text \<open>
  A well-formed stream, the buffer of the specification's data model: the length fits the
  stride; \<open>stride * subStreams\<close> fits 32 bits and lies inside the host block; the device
  block has the size of the host block; the two view tables have the same number of
  entries, at least \<open>subStreams\<close>, and entry \<open>j\<close> is the offset \<open>j * stride\<close>. The
  constructor establishes it when nothing wraps (\<open>ctor_success\<close>), and every operation
  that completes keeps it (\<open>Collapse_inv\<close>, \<open>Upload_inv\<close>, \<open>Download_inv\<close>,
  \<open>subscript_set_inv\<close>, \<open>set_elem_inv\<close>).
\<close>

definition stream_inv :: "'a CUDAStream \<Rightarrow> bool" where
  "stream_inv s \<longleftrightarrow>
     unat (m_length s) \<le> unat (m_stride s) \<and>
     unat (m_stride s) * unat (m_subStreams s) < 2 ^ 32 \<and>
     unat (m_stride s) * unat (m_subStreams s) \<le> length (m_pSysData s) \<and>
     length (m_pDevData s) = length (m_pSysData s) \<and>
     length (m_pDevStream s) = length (m_pSysStream s) \<and>
     take (unat (m_subStreams s)) (m_pSysStream s) =
       map (\<lambda>j. Some (j * unat (m_stride s))) [0..<unat (m_subStreams s)] \<and>
     take (unat (m_subStreams s)) (m_pDevStream s) =
       map (\<lambda>j. Some (j * unat (m_stride s))) [0..<unat (m_subStreams s)]"

text \<open>
  The invariant of the first loop nest of \<^verbatim>\<open>Collapse\<close> after \<open>k\<close> copies into the scratch
  block: the counters, the indices written, and (while no position has been written
  twice) the content.
\<close>

definition gathered :: "'a CUDAStream \<Rightarrow> nat \<Rightarrow> nat \<Rightarrow> nat
    \<Rightarrow> 'a option list \<times> u32 \<times> u32 \<times> nat list \<Rightarrow> bool" where
  "gathered s m ns k = (\<lambda>(tmp, stream, pos, w).
     length tmp = unat (m_stride s) * unat (m_subStreams s) \<and>
     unat stream = k mod m \<and> unat pos = k div m \<and>
     w = map (slot m ns) [0..<k] \<and>
     (k \<le> m * ns \<longrightarrow>
        (\<forall>k'<k. tmp ! slot m ns k' =
           m_pSysData s ! slot (unat (m_subStreams s)) (unat (m_stride s)) k')))"

text \<open>The view tables after \<open>r\<close> rounds of the loop that rebuilds them.\<close>

definition viewed :: "u32 \<Rightarrow> nat option list \<Rightarrow> nat option list \<Rightarrow> nat
    \<Rightarrow> nat option list \<times> nat option list \<Rightarrow> bool" where
  "viewed stride sysS devS r = (\<lambda>(a, b).
     length a = length sysS \<and> length b = length devS \<and>
     take r a = map (\<lambda>i. Some (unat (of_nat i * stride))) [0..<r] \<and>
     take r b = map (\<lambda>i. Some (unat (of_nat i * stride))) [0..<r] \<and>
     drop r a = drop r sysS \<and> drop r b = drop r devS)"

text \<open>The invariant of the last loop nest of \<^verbatim>\<open>Collapse\<close> after \<open>t\<close> copies back.\<close>

definition scattered :: "'a option list \<Rightarrow> 'a option list \<Rightarrow> nat \<Rightarrow> nat \<Rightarrow> nat
    \<Rightarrow> 'a option list \<times> nat list \<Rightarrow> bool" where
  "scattered H tmp m ns t = (\<lambda>(host, w).
     length host = length H \<and> w = map (slot m ns) [0..<t] \<and>
     (\<forall>p<length H. host ! p = (if p \<in> slot m ns ` {0..<t} then tmp ! p else H ! p)))"

text \<open>
  What \<^verbatim>\<open>Collapse(M, _)\<close> makes of a well-formed stream \<open>s\<close>: the new counts, the first
  \<open>M\<close> views, and the host block, whose offset \<open>slot M newstride t\<close> now holds what offset
  \<open>slot subStreams stride t\<close> held.
\<close>

definition collapsed :: "'a CUDAStream \<Rightarrow> u32 \<Rightarrow> 'a CUDAStream \<Rightarrow> bool" where
  "collapsed s M s' \<longleftrightarrow>
     (let L = unat (m_length s); N = unat (m_subStreams s); S = unat (m_stride s);
          m = unat M; ns = S * N div m; nl = L * N div m
      in unat (m_length s') = nl \<and> m_subStreams s' = M \<and> unat (m_stride s') = ns \<and>
         m_name s' = m_name s \<and> m_pDevData s' = m_pDevData s \<and>
         length (m_pSysStream s') = length (m_pSysStream s) \<and>
         length (m_pDevStream s') = length (m_pDevStream s) \<and>
         take m (m_pSysStream s') = map (\<lambda>j. Some (j * ns)) [0..<m] \<and>
         take m (m_pDevStream s') = map (\<lambda>j. Some (j * ns)) [0..<m] \<and>
         length (m_pSysData s') = length (m_pSysData s) \<and>
         (\<forall>p<length (m_pSysData s). p \<notin> slot m ns ` {0..<nl * m} \<longrightarrow>
            m_pSysData s' ! p = m_pSysData s ! p) \<and>
         (L * N \<le> m * ns \<longrightarrow>
            (\<forall>t<nl * m. m_pSysData s' ! slot m ns t = m_pSysData s ! slot N S t)))"

text \<open>
  The view tables as the code fills them: entry \<open>i\<close> is the offset \<open>i * stride\<close>, the
  product taken in \<^verbatim>\<open>unsigned int\<close> as \<^verbatim>\<open>i * _stride\<close> is in the source.
\<close>

definition views_ok :: "'a CUDAStream \<Rightarrow> bool" where
  "views_ok s \<longleftrightarrow>
     take (unat (m_subStreams s)) (m_pSysStream s) =
       map (\<lambda>i. Some (unat (of_nat i * m_stride s))) [0..<unat (m_subStreams s)] \<and>
     take (unat (m_subStreams s)) (m_pDevStream s) =
       map (\<lambda>i. Some (unat (of_nat i * m_stride s))) [0..<unat (m_subStreams s)]"

text \<open>
  The states a program reaches through the constructor and the operations of the class:
  \<^verbatim>\<open>Upload\<close>, \<^verbatim>\<open>Download\<close>, \<^verbatim>\<open>Collapse\<close>, a store through \<^verbatim>\<open>operator[]\<close> and a
  store through a view.
\<close>

inductive reachable :: "'a CUDAStream \<Rightarrow> bool" where
  constructed: "CUDAStream_ctor status h len n name = (Inr s, h') \<Longrightarrow> reachable s"
| uploaded: "reachable s \<Longrightarrow> Upload status s = Inr s' \<Longrightarrow> reachable s'"
| downloaded: "reachable s \<Longrightarrow> Download status s = Inr s' \<Longrightarrow> reachable s'"
| reshaped: "reachable s \<Longrightarrow> Collapse newstreams interleave s = Inr s' \<Longrightarrow> reachable s'"
| stored: "reachable s \<Longrightarrow> subscript_set s index v = Inr s' \<Longrightarrow> reachable s'"
| filled: "reachable s \<Longrightarrow> set_elem s j i v = Inr s' \<Longrightarrow> reachable s'"

section \<open>Loops and arithmetic\<close>

lemma bnd_Inr [simp]: "bnd (Inr x) f = f x" by (simp add: bnd_def)

lemma bnd_Inl [simp]: "bnd (Inl e) f = Inl e" by (simp add: bnd_def)

lemma forM_append: "forM (xs @ ys) body st = bnd (forM xs body st) (forM ys body)"
  by (induction xs arbitrary: st) (auto simp: bnd_def split: sum.splits)

lemma forM_upt_inv:
  assumes "P 0 st"
    and "\<And>k st. k < n \<Longrightarrow> P k st \<Longrightarrow> \<exists>st'. body (f k) st = Inr st' \<and> P (Suc k) st'"
  shows "\<exists>st'. forM (map f [0..<n]) body st = Inr st' \<and> P n st'"
  using assms(2)
proof (induction n)
  case 0
  with assms(1) show ?case by simp
next
  case (Suc n)
  have "\<exists>st'. forM (map f [0..<n]) body st = Inr st' \<and> P n st'"
    by (rule Suc.IH) (simp add: Suc.prems)
  then obtain st1 where a: "forM (map f [0..<n]) body st = Inr st1" and b: "P n st1"
    by blast
  from Suc.prems [of n st1] b obtain st2 where c: "body (f n) st1 = Inr st2" and d: "P (Suc n) st2"
    by auto
  show ?case
    using a c d by (simp add: forM_append)
qed

lemma forM_range32_inv:
  assumes "P 0 st"
    and "\<And>i st. i < n \<Longrightarrow> P (unat i) st \<Longrightarrow> \<exists>st'. body i st = Inr st' \<and> P (Suc (unat i)) st'"
  shows "\<exists>st'. forM (range32 n) body st = Inr st' \<and> P (unat n) st'"
  unfolding range32_def
proof (rule forM_upt_inv [where P = P, OF assms(1)])
  fix k st
  assume k: "k < unat n" and p: "P k st"
  have u: "unat (of_nat k :: u32) = k"
    using k by (intro le_unat_uoi [where z = n]) simp
  have "(of_nat k :: u32) < n"
    using k u by (simp add: word_less_nat_alt)
  from assms(2) [OF this] p u show "\<exists>st'. body (word_of_nat k) st = Inr st' \<and> P (Suc k) st'"
    by simp
qed

lemma slot_row_major: "j < n \<Longrightarrow> slot n stride (i * n + j) = j * stride + i"
  by (simp add: slot_def)

lemma slot_lt_full:
  assumes "0 < m" "k div m < ns"
  shows "slot m ns k < m * ns"
proof -
  have "k mod m < m" using assms by simp
  then have "Suc (k mod m) * ns \<le> m * ns"
    by (simp add: Suc_leI mult_le_mono1 del: mult_Suc)
  moreover have "slot m ns k < Suc (k mod m) * ns"
    using assms by (simp add: slot_def)
  ultimately show ?thesis by linarith
qed

lemma slot_bound:
  assumes m: "0 < m" and k: "k < tot"
  shows "slot m (tot div m) k < tot"
proof (cases "k div m < tot div m")
  case True
  then have "slot m (tot div m) k < m * (tot div m)"
    using m by (rule slot_lt_full [rotated])
  also have "\<dots> \<le> tot" by simp
  finally show ?thesis .
next
  case False
  have "k div m \<le> tot div m"
    using k by (simp add: div_le_mono)
  with False have e: "k div m = tot div m" by simp
  have km: "k = m * (tot div m) + k mod m"
    using e by (metis mult_div_mod_eq)
  have tm: "tot = m * (tot div m) + tot mod m"
    by simp
  from k km tm have lt: "k mod m < tot mod m" by linarith
  have "tot mod m < m" using m by simp
  with lt have s: "Suc (k mod m) < m" by linarith
  have "slot m (tot div m) k = Suc (k mod m) * (tot div m)"
    by (simp add: slot_def e)
  also have "\<dots> \<le> (m - 1) * (tot div m)"
    using s by (intro mult_le_mono1) linarith
  also have "\<dots> < tot"
  proof (cases "tot div m = 0")
    case True
    then show ?thesis using k by simp
  next
    case False
    then have "(m - 1) * (tot div m) < m * (tot div m)"
      using m by simp
    also have "\<dots> \<le> tot" by simp
    finally show ?thesis .
  qed
  finally show ?thesis .
qed

lemma slot_inj:
  assumes "0 < m" "k div m < ns" "k' div m < ns" "slot m ns k = slot m ns k'"
  shows "k = k'"
proof -
  have "(k mod m) * ns + k div m = (k' mod m) * ns + k' div m"
    using assms(4) by (simp add: slot_def)
  then have "k div m + ns * (k mod m) = k' div m + ns * (k' mod m)"
    by (simp add: ac_simps)
  then have "k div m = k' div m \<and> k mod m = k' mod m"
    using assms(2,3) by (metis add.commute div_mult_self2 mod_mult_self2 mod_less div_less add_cancel_left_left less_nat_zero_code)
  then show ?thesis
    by (metis mult_div_mod_eq)
qed

lemma stream_inv_view:
  assumes "stream_inv s" "j < unat (m_subStreams s)"
  shows "j < length (m_pSysStream s)" "m_pSysStream s ! j = Some (j * unat (m_stride s))"
    "m_pDevStream s ! j = Some (j * unat (m_stride s))"
proof -
  let ?N = "unat (m_subStreams s)"
  have t: "take ?N (m_pSysStream s) = map (\<lambda>j. Some (j * unat (m_stride s))) [0..<?N]"
    and d: "take ?N (m_pDevStream s) = map (\<lambda>j. Some (j * unat (m_stride s))) [0..<?N]"
    using assms(1) by (simp_all add: stream_inv_def)
  from t have "length (take ?N (m_pSysStream s)) = ?N" by simp
  then show l: "j < length (m_pSysStream s)" using assms(2) by simp
  have "m_pSysStream s ! j = take ?N (m_pSysStream s) ! j"
    using assms(2) by simp
  also have "\<dots> = Some (j * unat (m_stride s))"
    using assms(2) by (simp only: t) simp
  finally show "m_pSysStream s ! j = Some (j * unat (m_stride s))" .
  have "m_pDevStream s ! j = take ?N (m_pDevStream s) ! j"
    using assms(2) by simp
  also have "\<dots> = Some (j * unat (m_stride s))"
    using assms(2) by (simp only: d) simp
  finally show "m_pDevStream s ! j = Some (j * unat (m_stride s))" .
qed

lemma unat_mult_add_small:
  fixes a b c :: u32
  assumes "unat a * unat b + unat c < 2 ^ 32"
  shows "unat (a * b + c) = unat a * unat b + unat c"
proof -
  have "unat a * unat b < 2 ^ LENGTH(32)" using assms by simp
  then have ab: "unat (a * b) = unat a * unat b"
    by (simp only: unat_mult_lem)
  have "unat (a * b) + unat c < 2 ^ LENGTH(32)" using assms ab by simp
  then have "unat (a * b + c) = unat (a * b) + unat c"
    by (simp only: unat_add_lem)
  with ab show ?thesis by simp
qed

lemma unat_mult_small:
  fixes a b :: u32
  assumes "unat a * unat b < 2 ^ 32"
  shows "unat (a * b) = unat a * unat b"
  using unat_mult_add_small [of a b 0] assms by simp

lemma unat_succ_small:
  fixes a :: u32
  assumes "unat a + 1 < 2 ^ 32"
  shows "unat (a + 1) = Suc (unat a)"
proof -
  have "unat a + unat (1 :: u32) < 2 ^ LENGTH(32)" using assms by simp
  then have "unat (a + 1) = unat a + unat (1 :: u32)"
    by (simp only: unat_add_lem)
  then show ?thesis by simp
qed

lemma row_major_lt:
  assumes "i < l" "j < (n :: nat)"
  shows "i * n + j < l * n"
proof -
  have "i * n + j < Suc i * n" using assms by simp
  also have "\<dots> \<le> l * n" using assms by (intro mult_le_mono1) simp
  finally show ?thesis .
qed

lemma copy_in_step:
  fixes s :: "'a CUDAStream"
  assumes inv: "stream_inv s"
    and i: "unat i < unat (m_length s)" and j: "unat j < unat (m_subStreams s)"
    and m: "0 < unat M"
    and ns: "unat newstride = (unat (m_stride s) * unat (m_subStreams s)) div unat M"
    and len: "length tmp = unat (m_stride s) * unat (m_subStreams s)"
    and st: "unat stream = k mod unat M" and ps: "unat pos = k div unat M"
    and k: "k = unat i * unat (m_subStreams s) + unat j"
  shows "\<exists>stream' pos'. copy_in s M newstride i j (tmp, stream, pos, w) =
      Inr (tmp[slot (unat M) (unat newstride) k :=
                 m_pSysData s ! slot (unat (m_subStreams s)) (unat (m_stride s)) k],
           stream', pos', w @ [slot (unat M) (unat newstride) k])
      \<and> unat stream' = Suc k mod unat M \<and> unat pos' = Suc k div unat M"
proof -
  let ?L = "unat (m_length s)" and ?N = "unat (m_subStreams s)" and ?S = "unat (m_stride s)"
  let ?m = "unat M" and ?ns = "unat newstride"
  have LS: "?L \<le> ?S" and small: "?S * ?N < 2 ^ 32" and host: "?S * ?N \<le> length (m_pSysData s)"
    using inv by (simp_all add: stream_inv_def)
  have kLN: "k < ?L * ?N" unfolding k using i j by (rule row_major_lt)
  have LN: "?L * ?N \<le> ?S * ?N" using LS by (rule mult_le_mono1)
  have kSN: "k < ?S * ?N" using kLN LN by linarith
  have src: "slot ?N ?S k = unat j * ?S + unat i"
    unfolding k using j by (rule slot_row_major)
  have "unat j * ?S + unat i < unat j * ?S + ?S" using i LS by linarith
  also have "\<dots> = Suc (unat j) * ?S" by simp
  also have "\<dots> \<le> ?N * ?S" using j by (intro mult_le_mono1) simp
  finally have srcb: "unat j * ?S + unat i < length (m_pSysData s)" using host by (simp add: ac_simps)
  have dst: "slot ?m ?ns k < ?S * ?N"
    unfolding ns using m kSN by (rule slot_bound)
  have "unat stream * unat newstride + unat pos = slot ?m ?ns k"
    by (simp add: slot_def st ps)
  with dst small have idx: "unat (stream * newstride + pos) = slot ?m ?ns k"
    by (simp add: unat_mult_add_small)
  have r1: "rd (m_pSysStream s) (unat j) = Inr (Some (unat j * ?S))"
    using stream_inv_view [OF inv j] by (simp add: rd_def)
  have r2: "rd (m_pSysData s) (unat j * ?S + unat i) = Inr (m_pSysData s ! slot ?N ?S k)"
    using srcb by (simp add: rd_def src)
  have r3: "wr tmp (slot ?m ?ns k) v = Inr (tmp[slot ?m ?ns k := v])" for v
    using dst len by (simp add: wr_def)
  have mlt: "?m < 2 ^ 32" using unsigned_less [of M, where ?'a = nat] by simp
  have stlt: "unat stream < ?m" using m by (simp add: st)
  have s1: "unat (stream + 1) = Suc (unat stream)"
    using stlt mlt by (intro unat_succ_small) linarith
  have "k div ?m \<le> k" by simp
  then have "unat pos + 1 < 2 ^ 32" using kSN small ps by linarith
  then have p1: "unat (pos + 1) = Suc (unat pos)" by (rule unat_succ_small)
  have eqM: "stream + 1 = M \<longleftrightarrow> Suc (k mod ?m) = ?m"
    using s1 st by (metis word_unat_eq_iff)
  show ?thesis
  proof (cases "Suc (k mod ?m) = ?m")
    case True
    then have "Suc k mod ?m = 0" "Suc k div ?m = Suc (k div ?m)"
      by (simp_all add: mod_Suc div_Suc)
    then show ?thesis
      using True eqM r1 r2 r3 idx p1 ps by (simp add: copy_in_def deref_def)
  next
    case False
    then have "Suc k mod ?m = Suc (k mod ?m)" "Suc k div ?m = k div ?m"
      by (simp_all add: mod_Suc div_Suc)
    then show ?thesis
      using False eqM r1 r2 r3 idx s1 st ps by (simp add: copy_in_def deref_def)
  qed
qed

lemma gathered_step:
  fixes s :: "'a CUDAStream"
  assumes inv: "stream_inv s"
    and i: "unat i < unat (m_length s)" and j: "unat j < unat (m_subStreams s)"
    and m: "0 < unat M"
    and ns: "unat newstride = (unat (m_stride s) * unat (m_subStreams s)) div unat M"
    and g: "gathered s (unat M) (unat newstride) (unat i * unat (m_subStreams s) + unat j) st"
  shows "\<exists>st'. copy_in s M newstride i j st = Inr st' \<and>
           gathered s (unat M) (unat newstride) (Suc (unat i * unat (m_subStreams s) + unat j)) st'"
proof -
  let ?m = "unat M" and ?ns = "unat newstride"
  let ?src = "\<lambda>k. m_pSysData s ! slot (unat (m_subStreams s)) (unat (m_stride s)) k"
  define k where "k = unat i * unat (m_subStreams s) + unat j"
  obtain tmp stream pos w where st: "st = (tmp, stream, pos, w)"
    by (cases st) auto
  from g have len: "length tmp = unat (m_stride s) * unat (m_subStreams s)"
    and a: "unat stream = k mod ?m" and b: "unat pos = k div ?m"
    and w: "w = map (slot ?m ?ns) [0..<k]"
    and c: "k \<le> ?m * ?ns \<longrightarrow> (\<forall>k'<k. tmp ! slot ?m ?ns k' = ?src k')"
    by (simp_all add: gathered_def st k_def)
  from copy_in_step [OF inv i j m ns len a b k_def, of w]
  obtain stream' pos' where
    r: "copy_in s M newstride i j (tmp, stream, pos, w) =
          Inr (tmp[slot ?m ?ns k := ?src k], stream', pos', w @ [slot ?m ?ns k])"
    and a': "unat stream' = Suc k mod ?m" and b': "unat pos' = Suc k div ?m"
    by blast
  have dst: "slot ?m ?ns k < length tmp"
  proof -
    have "k < unat (m_length s) * unat (m_subStreams s)"
      unfolding k_def using i j by (rule row_major_lt)
    also have "\<dots> \<le> unat (m_stride s) * unat (m_subStreams s)"
      using inv by (intro mult_le_mono1) (simp add: stream_inv_def)
    finally have "slot ?m ((unat (m_stride s) * unat (m_subStreams s)) div ?m) k
        < unat (m_stride s) * unat (m_subStreams s)"
      using m by (intro slot_bound)
    then show ?thesis by (simp add: len ns)
  qed
  have c': "\<forall>k'<Suc k. (tmp[slot ?m ?ns k := ?src k]) ! slot ?m ?ns k' = ?src k'"
    if le: "Suc k \<le> ?m * ?ns"
  proof (intro allI impI)
    fix k' assume k': "k' < Suc k"
    have kd: "k div ?m < ?ns"
      using le m by (simp add: less_mult_imp_div_less ac_simps)
    show "(tmp[slot ?m ?ns k := ?src k]) ! slot ?m ?ns k' = ?src k'"
    proof (cases "k' = k")
      case True
      then show ?thesis using dst by simp
    next
      case False
      with k' have lt: "k' < k" by simp
      then have "k' div ?m \<le> k div ?m" by (simp add: div_le_mono)
      with kd have k'd: "k' div ?m < ?ns" by simp
      have "slot ?m ?ns k \<noteq> slot ?m ?ns k'"
        using slot_inj [OF m kd k'd] False by blast
      moreover have "tmp ! slot ?m ?ns k' = ?src k'"
        using c le lt by simp
      ultimately show ?thesis by simp
    qed
  qed
  have "gathered s ?m ?ns (Suc k) (tmp[slot ?m ?ns k := ?src k], stream', pos', w @ [slot ?m ?ns k])"
    using len a' b' w c' by (simp add: gathered_def)
  with r show ?thesis by (simp add: st k_def)
qed

lemma gathered_loops:
  fixes s :: "'a CUDAStream"
  assumes inv: "stream_inv s" and m: "0 < unat M"
    and ns: "unat newstride = (unat (m_stride s) * unat (m_subStreams s)) div unat M"
  shows "\<exists>st'. forM (range32 (m_length s))
                 (\<lambda>i. forM (range32 (m_subStreams s)) (copy_in s M newstride i))
                 (replicate (unat (m_subStreams s * m_stride s)) None, 0, 0, []) = Inr st' \<and>
           gathered s (unat M) (unat newstride) (unat (m_length s) * unat (m_subStreams s)) st'"
proof (rule forM_range32_inv
    [where P = "\<lambda>r. gathered s (unat M) (unat newstride) (r * unat (m_subStreams s))"])
  have "unat (m_subStreams s) * unat (m_stride s) < 2 ^ 32"
    using inv by (simp add: stream_inv_def ac_simps)
  then have "unat (m_subStreams s * m_stride s) = unat (m_stride s) * unat (m_subStreams s)"
    by (simp add: unat_mult_small)
  then show "gathered s (unat M) (unat newstride) (0 * unat (m_subStreams s))
      (replicate (unat (m_subStreams s * m_stride s)) None, 0, 0, [])"
    by (simp add: gathered_def)
next
  fix i :: u32 and st
  assume i: "i < m_length s"
    and g: "gathered s (unat M) (unat newstride) (unat i * unat (m_subStreams s)) st"
  have i': "unat i < unat (m_length s)" using i by (simp add: word_less_nat_alt)
  have "\<exists>st'. forM (range32 (m_subStreams s)) (copy_in s M newstride i) st = Inr st' \<and>
      gathered s (unat M) (unat newstride) (unat i * unat (m_subStreams s) + unat (m_subStreams s)) st'"
  proof (rule forM_range32_inv
      [where P = "\<lambda>c. gathered s (unat M) (unat newstride) (unat i * unat (m_subStreams s) + c)"])
    show "gathered s (unat M) (unat newstride) (unat i * unat (m_subStreams s) + 0) st"
      using g by simp
  next
    fix j :: u32 and st
    assume j: "j < m_subStreams s"
      and g': "gathered s (unat M) (unat newstride) (unat i * unat (m_subStreams s) + unat j) st"
    have j': "unat j < unat (m_subStreams s)" using j by (simp add: word_less_nat_alt)
    from gathered_step [OF inv i' j' m ns g']
    show "\<exists>st'. copy_in s M newstride i j st = Inr st' \<and>
        gathered s (unat M) (unat newstride) (unat i * unat (m_subStreams s) + Suc (unat j)) st'"
      by simp
  qed
  then show "\<exists>st'. forM (range32 (m_subStreams s)) (copy_in s M newstride i) st = Inr st' \<and>
      gathered s (unat M) (unat newstride) (Suc (unat i) * unat (m_subStreams s)) st'"
    by (simp add: ac_simps)
qed

lemma forM_upt_partial:
  assumes "P 0 st"
    and "\<And>k st st'. k < n \<Longrightarrow> P k st \<Longrightarrow> body (f k) st = Inr st' \<Longrightarrow> P (Suc k) st'"
    and "forM (map f [0..<n]) body st = Inr st'"
  shows "P n st'"
  using assms(2,3)
proof (induction n arbitrary: st')
  case 0
  with assms(1) show ?case by simp
next
  case (Suc n)
  from Suc.prems(2) obtain st1 where a: "forM (map f [0..<n]) body st = Inr st1"
    and b: "body (f n) st1 = Inr st'"
    by (auto simp: forM_append bnd_def split: sum.splits)
  have "P n st1"
    by (rule Suc.IH [OF _ a]) (simp add: Suc.prems(1))
  then show ?case
    using Suc.prems(1) [of n st1 st'] b by simp
qed

lemma forM_range32_partial:
  assumes "P 0 st"
    and "\<And>i st st'. i < n \<Longrightarrow> P (unat i) st \<Longrightarrow> body i st = Inr st' \<Longrightarrow> P (Suc (unat i)) st'"
    and "forM (range32 n) body st = Inr st'"
  shows "P (unat n) st'"
proof (rule forM_upt_partial [where P = P, OF assms(1) _ assms(3) [unfolded range32_def]])
  fix k st st'
  assume k: "k < unat n" and p: "P k st" and b: "body (word_of_nat k :: u32) st = Inr st'"
  have u: "unat (of_nat k :: u32) = k"
    using k by (intro le_unat_uoi [where z = n]) simp
  have "(of_nat k :: u32) < n"
    using k u by (simp add: word_less_nat_alt)
  from assms(2) [OF this _ b] p u show "P (Suc k) st'"
    by simp
qed

lemma take_Suc_update:
  assumes "r < length a" "take r a = map g [0..<r]" "v = g r"
  shows "take (Suc r) (a[r := v]) = map g [0..<Suc r]"
  using assms by (simp add: take_Suc_conv_app_nth)

lemma drop_Suc_update:
  assumes "drop r a = drop r c"
  shows "drop (Suc r) (a[r := v]) = drop (Suc r) c"
proof -
  have "drop (Suc r) a = drop 1 (drop r a)" by simp
  also have "\<dots> = drop 1 (drop r c)" by (simp only: assms)
  finally show ?thesis by simp
qed

lemma viewed_update:
  fixes i :: u32
  assumes v: "viewed stride sysS devS (unat i) (a, b)"
    and la: "unat i < length a" and lb: "unat i < length b"
  shows "viewed stride sysS devS (Suc (unat i))
           (a[unat i := Some (unat (i * stride))], b[unat i := Some (unat (i * stride))])"
proof -
  let ?g = "\<lambda>i. Some (unat (of_nat i * stride))"
  from v have ta: "take (unat i) a = map ?g [0..<unat i]"
    and tb: "take (unat i) b = map ?g [0..<unat i]"
    and da: "drop (unat i) a = drop (unat i) sysS" and db: "drop (unat i) b = drop (unat i) devS"
    and l: "length a = length sysS" "length b = length devS"
    by (simp_all add: viewed_def)
  have e: "Some (unat (i * stride)) = ?g (unat i)" by simp
  show ?thesis
    unfolding viewed_def
    using take_Suc_update [OF la ta e] take_Suc_update [OF lb tb e]
      drop_Suc_update [OF da] drop_Suc_update [OF db] l
    by simp
qed

lemma set_views_loop:
  assumes "unat n \<le> length sysS" "unat n \<le> length devS"
  shows "\<exists>st'. forM (range32 n) (set_views stride) (sysS, devS) = Inr st' \<and>
           viewed stride sysS devS (unat n) st'"
proof (rule forM_range32_inv [where P = "\<lambda>r st. viewed stride sysS devS r st"])
  show "viewed stride sysS devS 0 (sysS, devS)"
    by (simp add: viewed_def)
next
  fix i :: u32 and st
  assume i: "i < n" and v: "viewed stride sysS devS (unat i) st"
  obtain a b where st: "st = (a, b)" by (cases st)
  have "unat i < unat n" using i by (simp add: word_less_nat_alt)
  with assms v have la: "unat i < length a" and lb: "unat i < length b"
    by (simp_all add: viewed_def st)
  have "set_views stride i (a, b) =
      Inr (a[unat i := Some (unat (i * stride))], b[unat i := Some (unat (i * stride))])"
    using la lb by (simp add: set_views_def wr_def)
  with viewed_update [OF v [unfolded st] la lb]
  show "\<exists>st'. set_views stride i st = Inr st' \<and> viewed stride sysS devS (Suc (unat i)) st'"
    by (simp add: st)
qed

lemma set_views_loop_partial:
  assumes "forM (range32 n) (set_views stride) (sysS, devS) = Inr st'"
  shows "viewed stride sysS devS (unat n) st'"
proof (rule forM_range32_partial [where P = "\<lambda>r st. viewed stride sysS devS r st", OF _ _ assms])
  show "viewed stride sysS devS 0 (sysS, devS)"
    by (simp add: viewed_def)
next
  fix i :: u32 and st st'
  assume v: "viewed stride sysS devS (unat i) st" and r: "set_views stride i st = Inr st'"
  obtain a b where st: "st = (a, b)" by (cases st)
  from r have la: "unat i < length a" and lb: "unat i < length b"
    and e: "st' = (a[unat i := Some (unat (i * stride))], b[unat i := Some (unat (i * stride))])"
    by (auto simp: st set_views_def wr_def bnd_def split: if_splits)
  show "viewed stride sysS devS (Suc (unat i)) st'"
    unfolding e using v [unfolded st] la lb by (rule viewed_update)
qed

lemma scattered_step:
  fixes H :: "'a option list"
  assumes m: "unat j < unat M"
    and i: "unat i < nl" and nl: "nl \<le> unat newstride"
    and fit: "unat M * unat newstride \<le> length tmp" "unat M * unat newstride \<le> length H"
      "length tmp < 2 ^ 32"
    and views: "take (unat M) sysS = map (\<lambda>j. Some (j * unat newstride)) [0..<unat M]"
    and sc: "scattered H tmp (unat M) (unat newstride) (unat i * unat M + unat j) st"
  shows "\<exists>st'. copy_back sysS tmp newstride i j st = Inr st' \<and>
           scattered H tmp (unat M) (unat newstride) (Suc (unat i * unat M + unat j)) st'"
proof -
  let ?m = "unat M" and ?ns = "unat newstride"
  define t where "t = unat i * ?m + unat j"
  obtain host w where st: "st = (host, w)" by (cases st)
  from sc have len: "length host = length H" and w: "w = map (slot ?m ?ns) [0..<t]"
    and c: "\<forall>p<length H. host ! p = (if p \<in> slot ?m ?ns ` {0..<t} then tmp ! p else H ! p)"
    by (simp_all add: scattered_def st t_def)
  have sl: "slot ?m ?ns t = unat j * ?ns + unat i"
    unfolding t_def using m by (rule slot_row_major)
  have "t div ?m = unat i" using m by (simp add: t_def)
  then have "t div ?m < ?ns" using i nl by simp
  then have b: "slot ?m ?ns t < ?m * ?ns"
    using m by (intro slot_lt_full) simp_all
  have "unat j * unat newstride + unat i < 2 ^ 32"
    using b fit sl by linarith
  then have idx: "unat (j * newstride + i) = slot ?m ?ns t"
    by (simp add: unat_mult_add_small sl)
  have r1: "rd tmp (unat (j * newstride + i)) = Inr (tmp ! slot ?m ?ns t)"
    using b fit by (simp add: rd_def idx)
  have "length (take ?m sysS) = ?m" by (simp only: views) simp
  then have lj: "unat j < length sysS" using m by simp
  have "sysS ! unat j = take ?m sysS ! unat j" using m by simp
  also have "\<dots> = Some (unat j * ?ns)" using m by (simp only: views) simp
  finally have r2: "rd sysS (unat j) = Inr (Some (unat j * ?ns))"
    using lj by (simp add: rd_def)
  have r3: "wr host (unat j * ?ns + unat i) v = Inr (host[slot ?m ?ns t := v])" for v
    using b fit len by (simp add: wr_def sl)
  have r: "copy_back sysS tmp newstride i j (host, w) =
      Inr (host[slot ?m ?ns t := tmp ! slot ?m ?ns t], w @ [slot ?m ?ns t])"
    by (simp add: copy_back_def r1 r2 r3 deref_def sl)
  have img: "slot ?m ?ns ` {0..<Suc t} = insert (slot ?m ?ns t) (slot ?m ?ns ` {0..<t})"
    by (simp add: atLeast0_lessThan_Suc)
  have c': "(host[slot ?m ?ns t := tmp ! slot ?m ?ns t]) ! p =
      (if p \<in> slot ?m ?ns ` {0..<Suc t} then tmp ! p else H ! p)" if p: "p < length H" for p
  proof (cases "p = slot ?m ?ns t")
    case True
    then show ?thesis using p len by (simp add: img)
  next
    case False
    then have "(host[slot ?m ?ns t := tmp ! slot ?m ?ns t]) ! p = host ! p" by simp
    also have "\<dots> = (if p \<in> slot ?m ?ns ` {0..<t} then tmp ! p else H ! p)"
      using c p by simp
    finally show ?thesis using False by (simp add: img)
  qed
  have "scattered H tmp ?m ?ns (Suc t) (host[slot ?m ?ns t := tmp ! slot ?m ?ns t], w @ [slot ?m ?ns t])"
    unfolding scattered_def using len w c' by simp
  with r show ?thesis by (simp add: st t_def)
qed

lemma scattered_loops:
  fixes H :: "'a option list"
  assumes nl: "unat newlength \<le> unat newstride"
    and fit: "unat M * unat newstride \<le> length tmp" "unat M * unat newstride \<le> length H"
      "length tmp < 2 ^ 32"
    and views: "take (unat M) sysS = map (\<lambda>j. Some (j * unat newstride)) [0..<unat M]"
  shows "\<exists>st'. forM (range32 newlength)
                 (\<lambda>i. forM (range32 M) (copy_back sysS tmp newstride i)) (H, []) = Inr st' \<and>
           scattered H tmp (unat M) (unat newstride) (unat newlength * unat M) st'"
proof (rule forM_range32_inv
    [where P = "\<lambda>r. scattered H tmp (unat M) (unat newstride) (r * unat M)"])
  show "scattered H tmp (unat M) (unat newstride) (0 * unat M) (H, [])"
    by (simp add: scattered_def)
next
  fix i :: u32 and st
  assume i: "i < newlength"
    and sc: "scattered H tmp (unat M) (unat newstride) (unat i * unat M) st"
  have i': "unat i < unat newlength" using i by (simp add: word_less_nat_alt)
  have "\<exists>st'. forM (range32 M) (copy_back sysS tmp newstride i) st = Inr st' \<and>
      scattered H tmp (unat M) (unat newstride) (unat i * unat M + unat M) st'"
  proof (rule forM_range32_inv
      [where P = "\<lambda>c. scattered H tmp (unat M) (unat newstride) (unat i * unat M + c)"])
    show "scattered H tmp (unat M) (unat newstride) (unat i * unat M + 0) st"
      using sc by simp
  next
    fix j :: u32 and st
    assume j: "j < M"
      and sc': "scattered H tmp (unat M) (unat newstride) (unat i * unat M + unat j) st"
    have j': "unat j < unat M" using j by (simp add: word_less_nat_alt)
    from scattered_step [OF j' i' nl fit views sc']
    show "\<exists>st'. copy_back sysS tmp newstride i j st = Inr st' \<and>
        scattered H tmp (unat M) (unat newstride) (unat i * unat M + Suc (unat j)) st'"
      by simp
  qed
  then show "\<exists>st'. forM (range32 M) (copy_back sysS tmp newstride i) st = Inr st' \<and>
      scattered H tmp (unat M) (unat newstride) (Suc (unat i) * unat M) st'"
    by (simp add: ac_simps)
qed

lemma views_nat:
  fixes stride :: u32
  assumes "m * unat stride < 2 ^ 32" "m < 2 ^ 32"
  shows "map (\<lambda>i. Some (unat (of_nat i * stride))) [0..<m] = map (\<lambda>j. Some (j * unat stride)) [0..<m]"
proof (rule map_cong [OF refl])
  fix i assume "i \<in> set [0..<m]"
  then have i: "i < m" by simp
  then have u: "unat (of_nat i :: u32) = i"
    using assms(2) by (simp add: unat_of_nat)
  have "i * unat stride \<le> m * unat stride" using i by (intro mult_le_mono1) simp
  then have "i * unat stride < 2 ^ 32" using assms(1) by linarith
  then have "unat (of_nat i :: u32) * unat stride < 2 ^ 32" by (simp only: u)
  then have "unat (of_nat i * stride) = unat (of_nat i :: u32) * unat stride"
    by (rule unat_mult_small)
  then have "unat (of_nat i * stride) = i * unat stride"
    by (simp only: u)
  then show "Some (unat (of_nat i * stride)) = Some (i * unat stride)" by simp
qed

lemma Collapse_run_spec:
  fixes s :: "'a CUDAStream"
  assumes inv: "stream_inv s" and m: "0 < unat M" and cap: "unat M \<le> length (m_pSysStream s)"
  shows "\<exists>s'. Collapse_run M il s =
           Inr (s',
                map (slot (unat M) (unat (m_stride s) * unat (m_subStreams s) div unat M))
                  [0..<unat (m_length s) * unat (m_subStreams s)],
                map (slot (unat M) (unat (m_stride s) * unat (m_subStreams s) div unat M))
                  [0..<unat (m_length s) * unat (m_subStreams s) div unat M * unat M])
         \<and> collapsed s M s'"
proof -
  let ?L = "unat (m_length s)" and ?N = "unat (m_subStreams s)" and ?S = "unat (m_stride s)"
  let ?m = "unat M"
  let ?H = "m_pSysData s"
  define newstride where "newstride = m_stride s * m_subStreams s div M"
  define newlength where "newlength = m_length s * m_subStreams s div M"
  have LS: "?L \<le> ?S" and small: "?S * ?N < 2 ^ 32" and host: "?S * ?N \<le> length ?H"
    and capd: "length (m_pDevStream s) = length (m_pSysStream s)"
    using inv by (simp_all add: stream_inv_def)
  have LN: "?L * ?N \<le> ?S * ?N" using LS by (rule mult_le_mono1)
  have "unat (m_stride s * m_subStreams s) = ?S * ?N"
    using small by (rule unat_mult_small)
  then have ns: "unat newstride = ?S * ?N div ?m"
    by (simp add: newstride_def unat_div)
  have "?L * ?N < 2 ^ 32" using small LN by linarith
  then have "unat (m_length s * m_subStreams s) = ?L * ?N"
    by (rule unat_mult_small)
  then have nl: "unat newlength = ?L * ?N div ?m"
    by (simp add: newlength_def unat_div)
  have nlns: "unat newlength \<le> unat newstride"
    using LN by (simp add: ns nl div_le_mono)
  have mns: "?m * unat newstride \<le> ?S * ?N" by (simp add: ns)
  have M0: "M \<noteq> 0" using m by (metis unat_0 less_numeral_extra(3))
  have tl: "unat (m_subStreams s * m_stride s) = ?S * ?N"
    using small by (simp add: unat_mult_small ac_simps)
  from gathered_loops [OF inv m ns]
  obtain tmp stream pos w1 where
    p1: "forM (range32 (m_length s))
           (\<lambda>i. forM (range32 (m_subStreams s)) (copy_in s M newstride i))
           (replicate (unat (m_subStreams s * m_stride s)) None, 0, 0, []) = Inr (tmp, stream, pos, w1)"
    and g: "gathered s ?m (unat newstride) (?L * ?N) (tmp, stream, pos, w1)"
    by (metis prod_cases4)
  from g have ltmp: "length tmp = ?S * ?N" and w1: "w1 = map (slot ?m (unat newstride)) [0..<?L * ?N]"
    and content: "?L * ?N \<le> ?m * unat newstride \<longrightarrow>
        (\<forall>k<?L * ?N. tmp ! slot ?m (unat newstride) k = ?H ! slot ?N ?S k)"
    by (simp_all add: gathered_def)
  from set_views_loop [of M "m_pSysStream s" "m_pDevStream s" newstride] cap capd
  obtain sysS devS where
    p2: "forM (range32 M) (set_views newstride) (m_pSysStream s, m_pDevStream s) = Inr (sysS, devS)"
    and v: "viewed newstride (m_pSysStream s) (m_pDevStream s) ?m (sysS, devS)"
    by auto
  have mlt: "?m < 2 ^ 32" using unsigned_less [of M, where ?'a = nat] by simp
  have vn: "map (\<lambda>i. Some (unat (of_nat i * newstride))) [0..<?m] =
      map (\<lambda>j. Some (j * unat newstride)) [0..<?m]"
    using mns small mlt by (intro views_nat) linarith+
  from v have ls: "length sysS = length (m_pSysStream s)" and ld: "length devS = length (m_pDevStream s)"
    and ts: "take ?m sysS = map (\<lambda>j. Some (j * unat newstride)) [0..<?m]"
    and td: "take ?m devS = map (\<lambda>j. Some (j * unat newstride)) [0..<?m]"
    by (simp_all add: viewed_def vn)
  have fit: "?m * unat newstride \<le> length tmp" "?m * unat newstride \<le> length ?H" "length tmp < 2 ^ 32"
    using mns host small by (simp_all add: ltmp)
  from scattered_loops [OF nlns fit ts]
  obtain host' w2 where
    p3: "forM (range32 newlength) (\<lambda>i. forM (range32 M) (copy_back sysS tmp newstride i)) (?H, [])
          = Inr (host', w2)"
    and sc: "scattered ?H tmp ?m (unat newstride) (unat newlength * ?m) (host', w2)"
    by auto
  from sc have lh: "length host' = length ?H"
    and w2: "w2 = map (slot ?m (unat newstride)) [0..<unat newlength * ?m]"
    and hc: "\<forall>p<length ?H. host' ! p =
        (if p \<in> slot ?m (unat newstride) ` {0..<unat newlength * ?m} then tmp ! p else ?H ! p)"
    by (simp_all add: scattered_def)
  let ?s' = "s\<lparr>m_length := newlength, m_subStreams := M, m_stride := newstride,
               m_pSysStream := sysS, m_pDevStream := devS, m_pSysData := host'\<rparr>"
  have run: "Collapse_run M il s = Inr (?s', w1, w2)"
    using M0 p1 p2 p3
    by (simp add: Collapse_run_def Let_def newstride_def [symmetric] newlength_def [symmetric])
  have keep: "\<forall>p<length ?H. p \<notin> slot ?m (unat newstride) ` {0..<unat newlength * ?m} \<longrightarrow>
      host' ! p = ?H ! p"
    using hc by simp
  have moved: "\<forall>t<unat newlength * ?m. host' ! slot ?m (unat newstride) t = ?H ! slot ?N ?S t"
    if le: "?L * ?N \<le> ?m * unat newstride"
  proof (intro allI impI)
    fix t assume t: "t < unat newlength * ?m"
    have "unat newlength * ?m \<le> ?L * ?N" by (simp add: nl)
    with t have tLN: "t < ?L * ?N" by linarith
    have "t div ?m < unat newlength"
      using t m by (simp add: less_mult_imp_div_less)
    then have "t div ?m < unat newstride" using nlns by linarith
    then have "slot ?m (unat newstride) t < ?m * unat newstride"
      using m by (intro slot_lt_full)
    then have b: "slot ?m (unat newstride) t < length ?H" using fit by linarith
    have "host' ! slot ?m (unat newstride) t = tmp ! slot ?m (unat newstride) t"
      using hc b t by auto
    also have "\<dots> = ?H ! slot ?N ?S t"
      using content le tLN by simp
    finally show "host' ! slot ?m (unat newstride) t = ?H ! slot ?N ?S t" .
  qed
  have "collapsed s M ?s'"
    unfolding collapsed_def Let_def
    using ls ld ts td lh keep moved by (simp add: ns nl)
  with run w1 w2 show ?thesis
    by (auto simp: ns nl)
qed

subsection \<open>Rounding up to a multiple of 16\<close>

lemma mask_fffffff0: "(0xfffffff0 :: u32) = NOT (mask 4)"
  by (simp add: mask_eq_exp_minus_1)

lemma and_fffffff0: "(x :: u32) AND 0xfffffff0 = push_bit 4 (drop_bit 4 x)"
  unfolding mask_fffffff0
  by (rule bit_word_eqI) (auto simp: bit_simps)

lemma unat_and_fffffff0: "unat ((x :: u32) AND 0xfffffff0) = unat x div 16 * 16"
proof -
  have d: "unat (drop_bit 4 x) = unat x div 16"
    by (simp add: drop_bit_eq_div unat_div)
  moreover have "unat x div 16 * 16 \<le> unat x" by simp
  moreover have "unat x < 2 ^ 32" using unsigned_less [of x, where ?'a = nat] by simp
  ultimately have "unat (drop_bit 4 x) * unat (16 :: u32) < 2 ^ 32" by simp
  then have "unat (drop_bit 4 x * 16) = unat (drop_bit 4 x) * unat (16 :: u32)"
    by (rule unat_mult_small)
  then show ?thesis
    by (simp add: and_fffffff0 push_bit_eq_mult d)
qed

lemma unat_round_up_16:
  fixes len :: u32
  assumes "unat len + 15 < 2 ^ 32"
  shows "unat ((len + 0xf) AND 0xfffffff0) = (unat len + 15) div 16 * 16"
proof -
  have "unat len + unat (0xf :: u32) < 2 ^ LENGTH(32)" using assms by simp
  then have "unat (len + 0xf) = unat len + unat (0xf :: u32)"
    by (simp only: unat_add_lem)
  then show ?thesis by (simp add: unat_and_fffffff0)
qed

subsection \<open>C strings\<close>

lemma c_str_append_plain: "CHR 0x00 \<notin> set name \<Longrightarrow> c_str (name @ t) = name @ c_str t"
  by (induction name) (auto simp: c_str_def)

lemma c_str_append_cut: "CHR 0x00 \<in> set name \<Longrightarrow> c_str (name @ t) = c_str name"
  by (simp add: c_str_def takeWhile_append1)

subsection \<open>The constructor\<close>

lemma Allocate_success:
  "\<exists>sysS devS.
     Allocate cudaSuccess h s =
       (Inr (s\<lparr>m_pSysStream := sysS, m_pDevStream := devS,
               m_pSysData := replicate (unat (m_subStreams s * m_stride s)) None,
               m_pDevData := replicate (unat (m_stride s * m_subStreams s)) None\<rparr>),
        h\<lparr>hostBlocks := hostBlocks h @
             [unat (m_subStreams s), unat (m_subStreams s), unat (m_subStreams s * m_stride s)],
           devBlocks := devBlocks h @ [unat (m_stride s * m_subStreams s)]\<rparr>)
     \<and> length sysS = unat (m_subStreams s) \<and> length devS = unat (m_subStreams s)
     \<and> sysS = map (\<lambda>i. Some (unat (of_nat i * m_stride s))) [0..<unat (m_subStreams s)]
     \<and> devS = map (\<lambda>i. Some (unat (of_nat i * m_stride s))) [0..<unat (m_subStreams s)]"
proof -
  let ?N = "unat (m_subStreams s)"
  from set_views_loop [of "m_subStreams s" "replicate ?N None" "replicate ?N None" "m_stride s"]
  obtain sysS devS where
    l: "forM (range32 (m_subStreams s)) (set_views (m_stride s)) (replicate ?N None, replicate ?N None)
          = Inr (sysS, devS)"
    and v: "viewed (m_stride s) (replicate ?N None) (replicate ?N None) ?N (sysS, devS)"
    by auto
  from v have ls: "length sysS = ?N" and ld: "length devS = ?N"
    and ts: "take ?N sysS = map (\<lambda>i. Some (unat (of_nat i * m_stride s))) [0..<?N]"
    and td: "take ?N devS = map (\<lambda>i. Some (unat (of_nat i * m_stride s))) [0..<?N]"
    by (simp_all add: viewed_def)
  from ts ls have "sysS = map (\<lambda>i. Some (unat (of_nat i * m_stride s))) [0..<?N]" by simp
  moreover from td ld have "devS = map (\<lambda>i. Some (unat (of_nat i * m_stride s))) [0..<?N]" by simp
  ultimately show ?thesis
    using l ls ld by (simp add: Allocate_def Let_def)
qed

lemma le_round_up_16: "(n :: nat) \<le> (n + 15) div 16 * 16"
  by presburger

lemma ceiling_div_16: "nat \<lceil>real n / 16\<rceil> = (n + 15) div 16"
proof -
  let ?q = "(n + 15) div 16"
  have a: "n \<le> 16 * ?q" by presburger
  have b: "16 * ?q < n + 16" by presburger
  from a have "real n \<le> real (16 * ?q)" by (simp only: of_nat_le_iff)
  then have a': "real n / 16 \<le> of_int (int ?q)" by simp
  from b have "real (16 * ?q) < real (n + 16)" by (simp only: of_nat_less_iff)
  then have b': "of_int (int ?q) - 1 < real n / 16" by simp
  from b' a' have "\<lceil>real n / 16\<rceil> = int ?q" by (rule ceiling_unique)
  then show ?thesis by simp
qed

lemma ctor_success:
  fixes len n :: u32
  assumes "unat len + 15 < 2 ^ 32"
    and "(unat len + 15) div 16 * 16 * unat n < 2 ^ 32"
  shows "\<exists>s. CUDAStream_ctor cudaSuccess h len n name =
           (Inr s,
            h\<lparr>hostBlocks := hostBlocks h @ [unat n, unat n, (unat len + 15) div 16 * 16 * unat n],
              devBlocks := devBlocks h @ [(unat len + 15) div 16 * 16 * unat n]\<rparr>)
         \<and> m_length s = len \<and> m_subStreams s = n
         \<and> unat (m_stride s) = (unat len + 15) div 16 * 16
         \<and> length (m_pSysData s) = unat (m_stride s) * unat n
         \<and> length (m_pDevData s) = unat (m_stride s) * unat n
         \<and> stream_inv s"
proof -
  let ?stride = "(len + 0xf) AND 0xfffffff0"
  let ?s0 = "\<lparr>m_length = len, m_subStreams = n, m_stride = ?stride,
        m_pSysStream = [], m_pDevStream = [], m_pSysData = ([] :: 'a option list), m_pDevData = [],
        m_name = name\<rparr>"
  have st: "unat ?stride = (unat len + 15) div 16 * 16"
    using assms(1) by (rule unat_round_up_16)
  have small: "unat ?stride * unat n < 2 ^ 32"
    using assms(2) by (simp only: st)
  then have p1: "unat (?stride * n) = unat ?stride * unat n"
    by (rule unat_mult_small)
  have "unat n * unat ?stride < 2 ^ 32" using small by (simp add: ac_simps)
  then have p2: "unat (n * ?stride) = unat n * unat ?stride"
    by (rule unat_mult_small)
  from Allocate_success [of h ?s0]
  obtain sysS devS where
    a: "Allocate cudaSuccess h ?s0 =
       (Inr (?s0\<lparr>m_pSysStream := sysS, m_pDevStream := devS,
               m_pSysData := replicate (unat (n * ?stride)) None,
               m_pDevData := replicate (unat (?stride * n)) None\<rparr>),
        h\<lparr>hostBlocks := hostBlocks h @ [unat n, unat n, unat (n * ?stride)],
           devBlocks := devBlocks h @ [unat (?stride * n)]\<rparr>)"
    and sy: "sysS = map (\<lambda>i. Some (unat (of_nat i * ?stride))) [0..<unat n]"
    and dv: "devS = map (\<lambda>i. Some (unat (of_nat i * ?stride))) [0..<unat n]"
    by auto
  have nlt: "unat n < 2 ^ 32" using unsigned_less [of n, where ?'a = nat] by simp
  have vn: "map (\<lambda>i. Some (unat (of_nat i * ?stride))) [0..<unat n]
      = map (\<lambda>j. Some (j * unat ?stride)) [0..<unat n]"
    using nlt small by (intro views_nat) (simp_all add: ac_simps)
  let ?s = "?s0\<lparr>m_pSysStream := sysS, m_pDevStream := devS,
               m_pSysData := replicate (unat (n * ?stride)) None,
               m_pDevData := replicate (unat (?stride * n)) None\<rparr>"
  have inv: "stream_inv ?s"
    using small le_round_up_16 [of "unat len"]
    by (simp add: stream_inv_def sy dv vn p1 p2 st ac_simps)
  have "CUDAStream_ctor cudaSuccess h len n name =
      (Inr ?s, h\<lparr>hostBlocks := hostBlocks h @ [unat n, unat n, (unat len + 15) div 16 * 16 * unat n],
              devBlocks := devBlocks h @ [(unat len + 15) div 16 * 16 * unat n]\<rparr>)"
    unfolding CUDAStream_ctor_def a by (simp add: p1 p2 st ac_simps)
  moreover have "length (m_pSysData ?s) = unat (m_stride ?s) * unat n"
    "length (m_pDevData ?s) = unat (m_stride ?s) * unat n"
    by (simp_all add: p1 p2 ac_simps)
  moreover have "unat (m_stride ?s) = (unat len + 15) div 16 * 16" by (simp add: st)
  ultimately show ?thesis using inv by (intro exI [of _ ?s]) simp
qed

subsection \<open>The view tables of reachable states\<close>

lemma views_ok_host_update [simp]: "views_ok (s\<lparr>m_pSysData := x\<rparr>) = views_ok s"
  by (simp add: views_ok_def)

lemma views_ok_dev_update [simp]: "views_ok (s\<lparr>m_pDevData := x\<rparr>) = views_ok s"
  by (simp add: views_ok_def)

lemma bnd_eq_Inr: "bnd r f = Inr y \<longleftrightarrow> (\<exists>x. r = Inr x \<and> f x = Inr y)"
  by (cases r) simp_all

lemma bnd_InrE:
  assumes "bnd r f = Inr y"
  obtains x where "r = Inr x" and "f x = Inr y"
  using assms by (cases r) simp_all

lemma ctor_views_ok:
  assumes "CUDAStream_ctor status h len n name = (Inr s, h')"
  shows "views_ok s"
proof (cases "status = cudaSuccess")
  case False
  with assms show ?thesis by (simp add: CUDAStream_ctor_def Allocate_def)
next
  case True
  let ?s0 = "\<lparr>m_length = len, m_subStreams = n, m_stride = (len + 0xf) AND 0xfffffff0,
        m_pSysStream = [], m_pDevStream = [], m_pSysData = ([] :: 'a option list), m_pDevData = [],
        m_name = name\<rparr>"
  from Allocate_success [of h ?s0] assms True show ?thesis
    by (auto simp: CUDAStream_ctor_def views_ok_def)
qed

lemma Collapse_run_InrD:
  assumes "Collapse_run newstreams interleave s = Inr (s', w1, w2)"
  shows "\<exists>sysS devS.
     forM (range32 newstreams) (set_views (m_stride s * m_subStreams s div newstreams))
       (m_pSysStream s, m_pDevStream s) = Inr (sysS, devS) \<and>
     m_pSysStream s' = sysS \<and> m_pDevStream s' = devS \<and> m_subStreams s' = newstreams \<and>
     m_stride s' = m_stride s * m_subStreams s div newstreams"
  using assms
  apply (simp add: Collapse_run_def Let_def split: if_splits)
  apply (erule bnd_InrE)
  apply (simp split: prod.splits)
  apply (erule bnd_InrE)
  apply (simp split: prod.splits)
  apply (erule bnd_InrE)
  apply (auto split: prod.splits)
  done

lemma Collapse_views_ok:
  assumes "Collapse newstreams interleave s = Inr s'"
  shows "views_ok s'"
proof -
  from assms obtain w1 w2 where r: "Collapse_run newstreams interleave s = Inr (s', w1, w2)"
    by (cases "Collapse_run newstreams interleave s") (auto simp: Collapse_def)
  from Collapse_run_InrD [OF r] obtain sysS devS where
    l: "forM (range32 newstreams) (set_views (m_stride s'))
          (m_pSysStream s, m_pDevStream s) = Inr (sysS, devS)"
    and f: "m_pSysStream s' = sysS" "m_pDevStream s' = devS" "m_subStreams s' = newstreams"
    by auto
  from set_views_loop_partial [OF l]
  show ?thesis by (simp add: viewed_def views_ok_def f)
qed

lemma forM_reachable:
  assumes "\<And>x s s'. reachable s \<Longrightarrow> body x s = Inr s' \<Longrightarrow> reachable s'"
  shows "reachable s \<Longrightarrow> forM xs body s = Inr s' \<Longrightarrow> reachable s'"
proof (induction xs arbitrary: s)
  case Nil
  then show ?case by simp
next
  case (Cons x xs)
  from Cons.prems(2) obtain s1 where a: "body x s = Inr s1" and b: "forM xs body s1 = Inr s'"
    by (auto elim: bnd_InrE)
  from assms [OF Cons.prems(1) a] have "reachable s1" .
  then show ?case using b by (rule Cons.IH)
qed

lemma populate_reachable:
  assumes "reachable s" and "populate j vs s = Inr s'"
  shows "reachable s'"
proof (rule forM_reachable [OF _ assms(1) assms(2) [unfolded populate_def]])
  fix x :: "nat \<times> 'a" and s s'
  assume "reachable s" and "(case x of (i, v) \<Rightarrow> \<lambda>s. set_elem s j i v) s = Inr s'"
  then show "reachable s'"
    by (cases x) (auto intro: reachable.filled)
qed

lemma reachable_views_ok: "reachable s \<Longrightarrow> views_ok s"
proof (induction rule: reachable.induct)
  case (constructed status h len n name s h')
  then show ?case by (rule ctor_views_ok)
next
  case (uploaded s status s')
  then show ?case by (auto simp: Upload_def bnd_eq_Inr split: if_splits)
next
  case (downloaded s status s')
  then show ?case by (auto simp: Download_def bnd_eq_Inr split: if_splits)
next
  case (reshaped s newstreams interleave s')
  then show ?case by (auto intro: Collapse_views_ok)
next
  case (stored s index v s')
  then show ?case by (auto simp: subscript_set_def bnd_eq_Inr split: if_splits)
next
  case (filled s j i v s')
  then show ?case by (auto simp: set_elem_def bnd_eq_Inr split: if_splits)
qed

subsection \<open>What Collapse does to a well-formed stream\<close>

lemma collapsed_inv:
  assumes inv: "stream_inv s" and m: "0 < unat M" and c: "collapsed s M s'"
  shows "stream_inv s'"
proof -
  let ?L = "unat (m_length s)" and ?N = "unat (m_subStreams s)" and ?S = "unat (m_stride s)"
  let ?m = "unat M"
  let ?ns = "?S * ?N div ?m" and ?nl = "?L * ?N div ?m"
  have LS: "?L \<le> ?S" and small: "?S * ?N < 2 ^ 32" and host: "?S * ?N \<le> length (m_pSysData s)"
    and dev: "length (m_pDevData s) = length (m_pSysData s)"
    and capd: "length (m_pDevStream s) = length (m_pSysStream s)"
    using inv by (simp_all add: stream_inv_def)
  from c have f: "unat (m_length s') = ?nl" "m_subStreams s' = M" "unat (m_stride s') = ?ns"
    "m_pDevData s' = m_pDevData s"
    "length (m_pSysStream s') = length (m_pSysStream s)"
    "length (m_pDevStream s') = length (m_pDevStream s)"
    "take ?m (m_pSysStream s') = map (\<lambda>j. Some (j * ?ns)) [0..<?m]"
    "take ?m (m_pDevStream s') = map (\<lambda>j. Some (j * ?ns)) [0..<?m]"
    "length (m_pSysData s') = length (m_pSysData s)"
    by (simp_all add: collapsed_def Let_def)
  have "?L * ?N \<le> ?S * ?N" using LS by (rule mult_le_mono1)
  then have a: "?nl \<le> ?ns" by (rule div_le_mono)
  have b: "?ns * ?m \<le> ?S * ?N" by simp
  have b1: "?ns * ?m < 2 ^ 32" using b small by linarith
  have b2: "?ns * ?m \<le> length (m_pSysData s)" using b host by linarith
  show ?thesis
    unfolding stream_inv_def
    using a b1 b2 dev capd f by simp
qed

lemma Collapse_spec:
  fixes s :: "'a CUDAStream"
  assumes "stream_inv s" and "0 < unat M" and "unat M \<le> length (m_pSysStream s)"
  shows "\<exists>s'. Collapse M il s = Inr s' \<and> collapsed s M s' \<and> stream_inv s'"
proof -
  from Collapse_run_spec [OF assms, of il] obtain s' w1 w2 where
    "Collapse_run M il s = Inr (s', w1, w2)" and c: "collapsed s M s'"
    by blast
  then have "Collapse M il s = Inr s'" by (simp add: Collapse_def)
  with c collapsed_inv [OF assms(1,2) c] show ?thesis by blast
qed

lemma substream_inv:
  assumes "stream_inv s" and "j < unat (m_subStreams s)"
  shows "substream s j =
    map (\<lambda>i. m_pSysData s ! slot (unat (m_subStreams s)) (unat (m_stride s))
                 (i * unat (m_subStreams s) + j)) [0..<unat (m_length s)]"
  using stream_inv_view(2) [OF assms] assms(2)
  by (simp add: substream_def slot_row_major)

lemma mset_concat_snoc:
  "mset (concat (map (\<lambda>j. A j @ [b j]) js)) = mset (concat (map A js)) + mset (map b js)"
  by (induction js) simp_all

lemma map_upt_shift: "map f [a..<a + n] = map (\<lambda>j. f (a + j)) [0..<n]"
  by (rule nth_equalityI) simp_all

lemma mset_row_major:
  "mset (concat (map (\<lambda>j. map (\<lambda>i. f (i * n + j)) [0..<l]) [0..<n])) = mset (map f [0..<l * n])"
proof (induction l)
  case 0
  have "concat (map (\<lambda>j. []) [0..<n]) = ([] :: 'a list)" by (induction n) simp_all
  then show ?case by simp
next
  case (Suc l)
  have "[0..<Suc l * n] = [0..<l * n] @ [l * n..<l * n + n]"
    using upt_add_eq_append [of 0 "l * n" n] by (simp add: ac_simps)
  then have e: "mset (map f [0..<Suc l * n]) =
      mset (map f [0..<l * n]) + mset (map (\<lambda>j. f (l * n + j)) [0..<n])"
    by (simp only: map_append mset_append map_upt_shift)
  have "mset (concat (map (\<lambda>j. map (\<lambda>i. f (i * n + j)) [0..<Suc l]) [0..<n])) =
      mset (concat (map (\<lambda>j. map (\<lambda>i. f (i * n + j)) [0..<l] @ [f (l * n + j)]) [0..<n]))"
    by simp
  also have "\<dots> = mset (concat (map (\<lambda>j. map (\<lambda>i. f (i * n + j)) [0..<l]) [0..<n]))
      + mset (map (\<lambda>j. f (l * n + j)) [0..<n])"
    by (rule mset_concat_snoc)
  finally show ?case by (simp only: Suc.IH e)
qed

lemma stream_contents:
  assumes "stream_inv s"
  shows "mset (concat (map (substream s) [0..<unat (m_subStreams s)])) =
    mset (map (\<lambda>k. m_pSysData s ! slot (unat (m_subStreams s)) (unat (m_stride s)) k)
            [0..<unat (m_length s) * unat (m_subStreams s)])"
proof -
  let ?N = "unat (m_subStreams s)"
  let ?f = "\<lambda>k. m_pSysData s ! slot ?N (unat (m_stride s)) k"
  have e: "map (substream s) [0..<?N] = map (\<lambda>j. map (\<lambda>i. ?f (i * ?N + j)) [0..<unat (m_length s)]) [0..<?N]"
    by (rule map_cong [OF refl]) (simp add: substream_inv [OF assms])
  show ?thesis unfolding e by (rule mset_row_major)
qed

text \<open>
  In a reachable state the views are at the offsets the source computes,
  \<^verbatim>\<open>i * _stride\<close> in \<^verbatim>\<open>unsigned int\<close>; the product is exact when
  \<open>stride * subStreams\<close> fits 32 bits.
\<close>

lemma views_wrapped:
  assumes "reachable s" and "i < unat (m_subStreams s)"
  shows "i < length (m_pSysStream s) \<and> i < length (m_pDevStream s) \<and>
         m_pSysStream s ! i = Some (unat (of_nat i * m_stride s)) \<and>
         m_pDevStream s ! i = Some (unat (of_nat i * m_stride s)) \<and>
         (unat (m_stride s) * unat (m_subStreams s) < 2 ^ 32 \<longrightarrow>
            unat (of_nat i * m_stride s) = i * unat (m_stride s))"
proof -
  let ?N = "unat (m_subStreams s)"
  let ?g = "\<lambda>i. Some (unat (of_nat i * m_stride s))"
  from reachable_views_ok [OF assms(1)]
  have t: "take ?N (m_pSysStream s) = map ?g [0..<?N]"
    and d: "take ?N (m_pDevStream s) = map ?g [0..<?N]"
    by (simp_all add: views_ok_def)
  from t have "length (take ?N (m_pSysStream s)) = ?N" by simp
  then have l1: "i < length (m_pSysStream s)" using assms(2) by simp
  from d have "length (take ?N (m_pDevStream s)) = ?N" by simp
  then have l2: "i < length (m_pDevStream s)" using assms(2) by simp
  have "m_pSysStream s ! i = take ?N (m_pSysStream s) ! i" using assms(2) by simp
  also have "\<dots> = ?g i" using assms(2) by (simp only: t) simp
  finally have v1: "m_pSysStream s ! i = ?g i" .
  have "m_pDevStream s ! i = take ?N (m_pDevStream s) ! i" using assms(2) by simp
  also have "\<dots> = ?g i" using assms(2) by (simp only: d) simp
  finally have v2: "m_pDevStream s ! i = ?g i" .
  have ex: "unat (of_nat i * m_stride s) = i * unat (m_stride s)"
    if small: "unat (m_stride s) * unat (m_subStreams s) < 2 ^ 32"
  proof -
    have "?N < 2 ^ 32" using unsigned_less [of "m_subStreams s", where ?'a = nat] by simp
    with assms(2) have u: "unat (of_nat i :: u32) = i" by (simp add: unat_of_nat)
    have "i * unat (m_stride s) \<le> ?N * unat (m_stride s)"
      using assms(2) by (intro mult_le_mono1) simp
    moreover have "?N * unat (m_stride s) = unat (m_stride s) * ?N" by (rule mult.commute)
    ultimately have "i * unat (m_stride s) < 2 ^ 32" using small by linarith
    then have "unat (of_nat i :: u32) * unat (m_stride s) < 2 ^ 32" by (simp only: u)
    then have "unat (of_nat i * m_stride s) = unat (of_nat i :: u32) * unat (m_stride s)"
      by (rule unat_mult_small)
    then show ?thesis by (simp only: u)
  qed
  from l1 l2 v1 v2 ex show ?thesis by simp
qed

subsection \<open>Every operation keeps a stream well-formed\<close>

lemma Upload_inv:
  assumes "stream_inv s" and "Upload status s = Inr s'"
  shows "stream_inv s'"
proof -
  from assms(2) obtain dev where
    c: "memcpy_elems (m_pDevData s) (m_pSysData s) (unat (m_stride s * m_subStreams s)) = Inr dev"
    and s': "s' = s\<lparr>m_pDevData := dev\<rparr>"
    by (cases "status = cudaSuccess") (auto simp: Upload_def elim!: bnd_InrE)
  from c have "length dev = length (m_pDevData s)"
    by (auto simp: memcpy_elems_def split: if_splits)
  with assms(1) show ?thesis by (simp add: stream_inv_def s')
qed

lemma Download_inv:
  assumes "stream_inv s" and "Download status s = Inr s'"
  shows "stream_inv s'"
proof -
  from assms(2) obtain host where
    c: "memcpy_elems (m_pSysData s) (m_pDevData s) (unat (m_stride s * m_subStreams s)) = Inr host"
    and s': "s' = s\<lparr>m_pSysData := host\<rparr>"
    by (cases "status = cudaSuccess") (auto simp: Download_def elim!: bnd_InrE)
  from c have "length host = length (m_pSysData s)"
    by (auto simp: memcpy_elems_def split: if_splits)
  with assms(1) show ?thesis by (simp add: stream_inv_def s')
qed

lemma Collapse_within_tables:
  assumes "Collapse M il s = Inr s'"
  shows "0 < unat M \<and> unat M \<le> length (m_pSysStream s)"
proof -
  from assms obtain w1 w2 where r: "Collapse_run M il s = Inr (s', w1, w2)"
    by (cases "Collapse_run M il s") (auto simp: Collapse_def)
  then have "M \<noteq> 0" by (cases "M = 0") (simp_all add: Collapse_run_def)
  then have m: "0 < unat M" by (simp add: unat_gt_0)
  from Collapse_run_InrD [OF r] obtain sysS devS where
    l: "forM (range32 M) (set_views (m_stride s * m_subStreams s div M))
          (m_pSysStream s, m_pDevStream s) = Inr (sysS, devS)"
    by auto
  from set_views_loop_partial [OF l]
  have "length sysS = length (m_pSysStream s)"
    and "take (unat M) sysS = map (\<lambda>i. Some (unat (of_nat i * (m_stride s * m_subStreams s div M)))) [0..<unat M]"
    by (simp_all add: viewed_def)
  then have "length (take (unat M) sysS) = unat M" by simp
  then have "unat M \<le> length sysS" by simp
  with m \<open>length sysS = length (m_pSysStream s)\<close> show ?thesis by simp
qed

lemma Collapse_inv:
  assumes "stream_inv s" and "Collapse M il s = Inr s'"
  shows "stream_inv s'"
proof -
  from Collapse_within_tables [OF assms(2)] have m: "0 < unat M"
    and cap: "unat M \<le> length (m_pSysStream s)"
    by simp_all
  from Collapse_spec [OF assms(1) m cap, of il] assms(2) show ?thesis by auto
qed

lemma subscript_set_inv:
  assumes "stream_inv s" and "subscript_set s index v = Inr s'"
  shows "stream_inv s'"
  using assms
  by (cases "index < 0") (auto simp: subscript_set_def wr_def stream_inv_def elim!: bnd_InrE split: if_splits)

lemma set_elem_inv:
  assumes "stream_inv s" and "set_elem s j i v = Inr s'"
  shows "stream_inv s'"
  using assms
  by (auto simp: set_elem_def wr_def stream_inv_def elim!: bnd_InrE split: if_splits)

section \<open>The example buffers\<close>

lemma scenario_eq: "scenario = Inr scenario_buffer"
  by code_simp

lemma triple_eq: "triple = Inr triple_buffer"
  by code_simp

lemma upt_small: "[0..<2] = [0, 1]" "[0..<3] = [0, 1, 2]"
  by code_simp+

lemma upt_4: "[0..<4] = [0, 1, 2, 3]"
  by code_simp

lemma scenario_buffer_inv: "stream_inv scenario_buffer"
  by (simp add: stream_inv_def scenario_buffer_def upt_small)

lemma triple_buffer_inv: "stream_inv triple_buffer"
  by (simp add: stream_inv_def triple_buffer_def upt_small)

lemma scenario_buffer_reachable: "reachable scenario_buffer"
proof -
  from scenario_eq obtain b0 b1 where
    c: "fst (CUDAStream_ctor cudaSuccess no_blocks 20 2 ''forces'') = Inr b0"
    and p0: "populate 0 [0, 1, 2, 3, 4, 5, 6, 7, 8, 9, 10, 11, 12, 13, 14, 15, 16, 17, 18, 19] b0
              = Inr b1"
    and p1: "populate 1 [100, 101, 102, 103, 104, 105, 106, 107, 108, 109,
                         110, 111, 112, 113, 114, 115, 116, 117, 118, 119] b1 = Inr scenario_buffer"
    unfolding scenario_def by (elim bnd_InrE) blast
  from c have "reachable b0"
    by (cases "CUDAStream_ctor cudaSuccess no_blocks 20 2 ''forces'' :: (failure + real CUDAStream) \<times> heap")
      (auto intro: reachable.constructed)
  then have "reachable b1" using p0 by (rule populate_reachable)
  then show ?thesis using p1 by (rule populate_reachable)
qed

section \<open>The claims\<close>

text \<open>
  C1. For the example buffer (length 20, two sub-streams, stride 32, 64 host elements,
  sub-stream 0 holding 0..19 and sub-stream 1 holding 100..119), \<^verbatim>\<open>Collapse(1, 1)\<close>
  completes with stride 64, length 40 and one sub-stream, which reads
  0, 100, 1, 101, ..., 19, 119.
\<close>

theorem Collapse_example:
  "map_sum id (\<lambda>s. (m_length s, m_subStreams s, m_stride s, length (m_pSysData s))) scenario
     = Inr (20, 2, 32, 64) \<and>
   map_sum id (\<lambda>s. (m_stride s, m_length s, m_subStreams s, substream s 0))
       (bnd scenario (Collapse 1 1))
     = Inr (64, 40, 1,
         map Some [0, 100, 1, 101, 2, 102, 3, 103, 4, 104, 5, 105, 6, 106, 7, 107, 8, 108, 9, 109,
                   10, 110, 11, 111, 12, 112, 13, 113, 14, 114, 15, 115, 16, 116, 17, 117, 18, 118,
                   19, 119])"
  by code_simp

text \<open>
  C2, as the code has it. For a well-formed stream (\<open>stream_inv\<close>) and
  \<open>1 \<le> newstreams\<close> not larger than the view tables, with \<open>length * subStreams\<close>
  divisible by \<open>newstreams\<close>: \<^verbatim>\<open>Collapse\<close> completes, the new length is
  \<open>length * subStreams / newstreams\<close>, and the values at positions \<open>[0, length)\<close> of
  the sub-streams before are, as a multiset, the values at positions \<open>[0, newlength)\<close>
  of the sub-streams after.
\<close>

theorem Collapse_conserves_values:
  fixes s :: "'a CUDAStream"
  assumes inv: "stream_inv s" and m: "0 < unat M" and cap: "unat M \<le> length (m_pSysStream s)"
    and dv: "unat M dvd unat (m_length s) * unat (m_subStreams s)"
  shows "\<exists>s'. Collapse M il s = Inr s' \<and>
           unat (m_length s') = unat (m_length s) * unat (m_subStreams s) div unat M \<and>
           m_subStreams s' = M \<and>
           mset (concat (map (substream s') [0..<unat (m_subStreams s')])) =
           mset (concat (map (substream s) [0..<unat (m_subStreams s)]))"
proof -
  let ?L = "unat (m_length s)" and ?N = "unat (m_subStreams s)" and ?S = "unat (m_stride s)"
  let ?m = "unat M"
  let ?ns = "?S * ?N div ?m" and ?nl = "?L * ?N div ?m"
  from Collapse_spec [OF inv m cap, of il] obtain s' where
    r: "Collapse M il s = Inr s'" and c: "collapsed s M s'" and inv': "stream_inv s'"
    by blast
  from c have f: "unat (m_length s') = ?nl" "m_subStreams s' = M" "unat (m_stride s') = ?ns"
    and mv: "?L * ?N \<le> ?m * ?ns \<longrightarrow>
      (\<forall>t<?nl * ?m. m_pSysData s' ! slot ?m ?ns t = m_pSysData s ! slot ?N ?S t)"
    by (simp_all add: collapsed_def Let_def)
  have nlm: "?nl * ?m = ?L * ?N" using dv by simp
  have LS: "?L \<le> ?S" using inv by (simp add: stream_inv_def)
  have "?L * ?N \<le> ?S * ?N" using LS by (rule mult_le_mono1)
  then have "?nl \<le> ?ns" by (rule div_le_mono)
  then have "?nl * ?m \<le> ?ns * ?m" by (rule mult_le_mono1)
  moreover have "?m * ?ns = ?ns * ?m" by (rule mult.commute)
  ultimately have le: "?L * ?N \<le> ?m * ?ns" using nlm by linarith
  have e: "map (\<lambda>k. m_pSysData s' ! slot ?m ?ns k) [0..<?L * ?N] =
      map (\<lambda>k. m_pSysData s ! slot ?N ?S k) [0..<?L * ?N]"
    using mv le by (intro map_cong [OF refl]) (simp add: nlm)
  have "mset (concat (map (substream s') [0..<unat (m_subStreams s')])) =
      mset (map (\<lambda>k. m_pSysData s' ! slot ?m ?ns k) [0..<?nl * ?m])"
    using stream_contents [OF inv'] by (simp add: f)
  also have "\<dots> = mset (map (\<lambda>k. m_pSysData s ! slot ?N ?S k) [0..<?L * ?N])"
    by (simp only: nlm e)
  also have "\<dots> = mset (concat (map (substream s) [0..<?N]))"
    by (rule stream_contents [OF inv, symmetric])
  finally show ?thesis using r f by simp
qed

theorem Collapse_conserves_values_witness:
  "stream_inv scenario_buffer \<and> 0 < unat (1 :: u32) \<and>
   unat (1 :: u32) \<le> length (m_pSysStream scenario_buffer) \<and>
   unat (1 :: u32) dvd unat (m_length scenario_buffer) * unat (m_subStreams scenario_buffer) \<and>
   (\<exists>s'. Collapse 1 1 scenario_buffer = Inr s' \<and> unat (m_length s') = 40 \<and> m_subStreams s' = 1 \<and>
      mset (concat (map (substream s') [0..<unat (m_subStreams s')])) =
      mset (concat (map (substream scenario_buffer) [0..<unat (m_subStreams scenario_buffer)])))"
proof -
  have a: "0 < unat (1 :: u32)" by simp
  have b: "unat (1 :: u32) \<le> length (m_pSysStream scenario_buffer)"
    by (simp add: scenario_buffer_def)
  have c: "unat (1 :: u32) dvd unat (m_length scenario_buffer) * unat (m_subStreams scenario_buffer)"
    by simp
  have l: "unat (m_length scenario_buffer) * unat (m_subStreams scenario_buffer) div unat (1 :: u32) = 40"
    by (simp add: scenario_buffer_def)
  from Collapse_conserves_values [OF scenario_buffer_inv a b c, of 1]
  show ?thesis using scenario_buffer_inv a b c unfolding l by blast
qed

text \<open>
  C2 as stated fails: a stream built with one sub-stream has view tables of one entry, and
  \<^verbatim>\<open>Collapse(2, 1)\<close> on it (length 2, so the element count is divisible by 2) writes
  \<^verbatim>\<open>_pSysStream[1]\<close>.
\<close>

theorem Collapse_conserves_values_counterexample:
  "map_sum id (\<lambda>s. (unat (m_length s) * unat (m_subStreams s)) mod 2) single = Inr 0 \<and>
   bnd single (Collapse 2 1) = Inl OutOfBounds"
  by code_simp

text \<open>
  C3, as the code has it. For a well-formed stream with \<open>N \<ge> 1\<close> sub-streams and
  \<open>1 \<le> M\<close> not larger than the view tables, with \<open>length * N\<close> divisible by \<open>M\<close>
  (the element count is then divisible by \<open>N\<close> again): \<^verbatim>\<open>Collapse\<close> to \<open>M\<close> and then
  to \<open>N\<close> both complete, and every sub-stream reads at positions \<open>[0, length)\<close> what it
  read before, in the same order.
\<close>

theorem Collapse_roundtrip:
  fixes s :: "'a CUDAStream"
  assumes inv: "stream_inv s" and n: "0 < unat (m_subStreams s)"
    and m: "0 < unat M" and cap: "unat M \<le> length (m_pSysStream s)"
    and dv: "unat M dvd unat (m_length s) * unat (m_subStreams s)"
  shows "\<exists>s1 s2. Collapse M i1 s = Inr s1 \<and> Collapse (m_subStreams s) i2 s1 = Inr s2 \<and>
           m_length s2 = m_length s \<and> m_subStreams s2 = m_subStreams s \<and>
           (\<forall>j<unat (m_subStreams s). substream s2 j = substream s j)"
proof -
  let ?L = "unat (m_length s)" and ?N = "unat (m_subStreams s)" and ?S = "unat (m_stride s)"
  let ?m = "unat M"
  let ?ns = "?S * ?N div ?m" and ?nl = "?L * ?N div ?m"
  let ?ns2 = "?ns * ?m div ?N"
  from Collapse_spec [OF inv m cap, of i1] obtain s1 where
    r1: "Collapse M i1 s = Inr s1" and c1: "collapsed s M s1" and inv1: "stream_inv s1"
    by blast
  from c1 have f1: "unat (m_length s1) = ?nl" "m_subStreams s1 = M" "unat (m_stride s1) = ?ns"
    "length (m_pSysStream s1) = length (m_pSysStream s)"
    and mv1: "?L * ?N \<le> ?m * ?ns \<longrightarrow>
      (\<forall>t<?nl * ?m. m_pSysData s1 ! slot ?m ?ns t = m_pSysData s ! slot ?N ?S t)"
    by (simp_all add: collapsed_def Let_def)
  have nlm: "?nl * ?m = ?L * ?N" using dv by simp
  have LS: "?L \<le> ?S" using inv by (simp add: stream_inv_def)
  have "?L * ?N \<le> ?S * ?N" using LS by (rule mult_le_mono1)
  then have "?nl \<le> ?ns" by (rule div_le_mono)
  then have "?nl * ?m \<le> ?ns * ?m" by (rule mult_le_mono1)
  then have le1: "?L * ?N \<le> ?ns * ?m" by (simp only: nlm)
  have "?m * ?ns = ?ns * ?m" by (rule mult.commute)
  with le1 have le1': "?L * ?N \<le> ?m * ?ns" by linarith
  have capN: "?N \<le> length (m_pSysStream s1)"
  proof (cases "?N")
    case 0
    then show ?thesis by simp
  next
    case (Suc k)
    then have "k < ?N" by simp
    from stream_inv_view(1) [OF inv this] Suc show ?thesis by (simp add: f1)
  qed
  from Collapse_spec [OF inv1 n capN, of i2] obtain s2 where
    r2: "Collapse (m_subStreams s) i2 s1 = Inr s2" and c2: "collapsed s1 (m_subStreams s) s2"
    and inv2: "stream_inv s2"
    by blast
  have nl2: "?nl * ?m div ?N = ?L" using n by (simp add: nlm)
  from c2 have f2: "unat (m_length s2) = ?L" "m_subStreams s2 = m_subStreams s"
    "unat (m_stride s2) = ?ns2"
    and mv2: "?nl * ?m \<le> ?N * ?ns2 \<longrightarrow>
      (\<forall>t<?L * ?N. m_pSysData s2 ! slot ?N ?ns2 t = m_pSysData s1 ! slot ?m ?ns t)"
    by (simp_all add: collapsed_def Let_def f1 nl2)
  have "?L * ?N div ?N \<le> ?ns * ?m div ?N" using le1 by (rule div_le_mono)
  moreover have "?L * ?N div ?N = ?L" using n by simp
  ultimately have "?L \<le> ?ns2" by linarith
  then have "?L * ?N \<le> ?ns2 * ?N" by (rule mult_le_mono1)
  moreover have "?N * ?ns2 = ?ns2 * ?N" by (rule mult.commute)
  ultimately have le2: "?nl * ?m \<le> ?N * ?ns2" using nlm by linarith
  have restored: "m_pSysData s2 ! slot ?N ?ns2 t = m_pSysData s ! slot ?N ?S t" if t: "t < ?L * ?N" for t
  proof -
    have "m_pSysData s2 ! slot ?N ?ns2 t = m_pSysData s1 ! slot ?m ?ns t"
      using mv2 le2 t by simp
    also have "\<dots> = m_pSysData s ! slot ?N ?S t"
      using mv1 le1' t by (simp add: nlm)
    finally show ?thesis .
  qed
  have len: "m_length s2 = m_length s"
    using f2(1) by (simp add: word_unat_eq_iff)
  have same: "substream s2 j = substream s j" if j: "j < ?N" for j
  proof -
    have j2: "j < unat (m_subStreams s2)" using j by (simp add: f2)
    have "substream s2 j = map (\<lambda>i. m_pSysData s2 ! slot ?N ?ns2 (i * ?N + j)) [0..<?L]"
      using substream_inv [OF inv2 j2] by (simp add: f2)
    also have "\<dots> = map (\<lambda>i. m_pSysData s ! slot ?N ?S (i * ?N + j)) [0..<?L]"
    proof (rule map_cong [OF refl])
      fix i assume "i \<in> set [0..<?L]"
      then have "i < ?L" by simp
      then have "i * ?N + j < ?L * ?N" using j by (rule row_major_lt)
      then show "m_pSysData s2 ! slot ?N ?ns2 (i * ?N + j) = m_pSysData s ! slot ?N ?S (i * ?N + j)"
        by (rule restored)
    qed
    also have "\<dots> = substream s j"
      by (rule substream_inv [OF inv j, symmetric])
    finally show ?thesis .
  qed
  from r1 r2 len f2(2) same show ?thesis by blast
qed

theorem Collapse_roundtrip_witness:
  "stream_inv scenario_buffer \<and> 0 < unat (m_subStreams scenario_buffer) \<and> 0 < unat (1 :: u32) \<and>
   unat (1 :: u32) \<le> length (m_pSysStream scenario_buffer) \<and>
   unat (1 :: u32) dvd unat (m_length scenario_buffer) * unat (m_subStreams scenario_buffer) \<and>
   (\<exists>s1 s2. Collapse 1 1 scenario_buffer = Inr s1 \<and>
      Collapse (m_subStreams scenario_buffer) 1 s1 = Inr s2 \<and>
      m_length s2 = m_length scenario_buffer \<and> m_subStreams s2 = m_subStreams scenario_buffer \<and>
      (\<forall>j<unat (m_subStreams scenario_buffer). substream s2 j = substream scenario_buffer j))"
proof -
  have n: "0 < unat (m_subStreams scenario_buffer)" by (simp add: scenario_buffer_def)
  have a: "0 < unat (1 :: u32)" by simp
  have b: "unat (1 :: u32) \<le> length (m_pSysStream scenario_buffer)"
    by (simp add: scenario_buffer_def)
  have c: "unat (1 :: u32) dvd unat (m_length scenario_buffer) * unat (m_subStreams scenario_buffer)"
    by simp
  from Collapse_roundtrip [OF scenario_buffer_inv n a b c, of 1 1]
  show ?thesis using scenario_buffer_inv n a b c by blast
qed

text \<open>
  C3 as stated fails: on the example buffer (two sub-streams, 40 elements),
  \<^verbatim>\<open>Collapse(4, 1)\<close> writes \<^verbatim>\<open>_pSysStream[2]\<close>, outside the table of two entries.
\<close>

theorem Collapse_roundtrip_counterexample:
  "map_sum id (\<lambda>s. ((unat (m_length s) * unat (m_subStreams s)) mod 4,
                     (unat (m_length s) * unat (m_subStreams s)) mod unat (m_subStreams s)))
     scenario = Inr (0, 0) \<and>
   bnd scenario (\<lambda>s. bnd (Collapse 4 1 s) (Collapse (m_subStreams s) 1)) = Inl OutOfBounds"
  by code_simp

text \<open>
  C4, as the code has it. When \<^verbatim>\<open>cudaMalloc\<close> reports a failure, the constructor does
  not return: \<^verbatim>\<open>RTERROR\<close> prints, as a C string, the label followed by
  \<^verbatim>\<open>: cudaMalloc in CUDAStream::Allocate failed\<close> (the whole text when the label has no
  NUL character, otherwise the label up to its first NUL) and calls \<^verbatim>\<open>exit(-1)\<close>. The
  three host allocations made before the device call (the two view tables and the host
  block) are still live at that moment.
\<close>

theorem ctor_device_failure_exits:
  assumes "status \<noteq> cudaSuccess"
  shows "CUDAStream_ctor status h len n name =
           (Inl (ProcessExit (- 1)
                   (c_str (name @ '': cudaMalloc in CUDAStream::Allocate failed''))),
            h\<lparr>hostBlocks := hostBlocks h @
                 [unat n, unat n, unat (n * ((len + 0xf) AND 0xfffffff0))]\<rparr>)
         \<and> (CHR 0x00 \<notin> set name \<longrightarrow>
              c_str (name @ '': cudaMalloc in CUDAStream::Allocate failed'') =
              name @ '': cudaMalloc in CUDAStream::Allocate failed'')
         \<and> (CHR 0x00 \<in> set name \<longrightarrow>
              c_str (name @ '': cudaMalloc in CUDAStream::Allocate failed'') = c_str name)"
proof -
  have "CUDAStream_ctor status h len n name =
           (Inl (ProcessExit (- 1)
                   (c_str (name @ '': cudaMalloc in CUDAStream::Allocate failed''))),
            h\<lparr>hostBlocks := hostBlocks h @
                 [unat n, unat n, unat (n * ((len + 0xf) AND 0xfffffff0))]\<rparr>)"
    using assms by (simp add: CUDAStream_ctor_def Allocate_def)
  moreover have "c_str (name @ t) = name @ c_str t" if "CHR 0x00 \<notin> set name" for t
    using that by (rule c_str_append_plain)
  moreover have "c_str '': cudaMalloc in CUDAStream::Allocate failed''
      = '': cudaMalloc in CUDAStream::Allocate failed''"
    by (simp add: c_str_def)
  moreover have "c_str (name @ t) = c_str name" if "CHR 0x00 \<in> set name" for t
    using that by (rule c_str_append_cut)
  ultimately show ?thesis by simp
qed

theorem ctor_device_failure_exits_witness:
  "cudaError 2 \<noteq> cudaSuccess \<and>
   (CUDAStream_ctor (cudaError 2) no_blocks 3 1 [CHR ''a'', CHR 0x00, CHR ''b'']
      :: (failure + real CUDAStream) \<times> heap) =
     (Inl (ProcessExit (- 1) ''a''), \<lparr>hostBlocks = [1, 1, 16], devBlocks = []\<rparr>) \<and>
   CHR 0x00 \<in> set [CHR ''a'', CHR 0x00, CHR ''b''] \<and>
   (CUDAStream_ctor (cudaError 2) no_blocks 3 1 ''x'' :: (failure + real CUDAStream) \<times> heap) =
     (Inl (ProcessExit (- 1) ''x: cudaMalloc in CUDAStream::Allocate failed''),
      \<lparr>hostBlocks = [1, 1, 16], devBlocks = []\<rparr>) \<and>
   CHR 0x00 \<notin> set ''x''"
proof -
  have n: "cudaError 2 \<noteq> cudaSuccess" by simp
  have z: "CHR 0x00 \<in> set [CHR ''a'', CHR 0x00, CHR ''b'']" by simp
  have x: "CHR 0x00 \<notin> set ''x''" by simp
  from ctor_device_failure_exits [OF n, of no_blocks 3 1 "[CHR ''a'', CHR 0x00, CHR ''b'']",
      where ?'a = real] z
  have a: "(CUDAStream_ctor (cudaError 2) no_blocks 3 1 [CHR ''a'', CHR 0x00, CHR ''b'']
      :: (failure + real CUDAStream) \<times> heap) =
     (Inl (ProcessExit (- 1) ''a''), \<lparr>hostBlocks = [1, 1, 16], devBlocks = []\<rparr>)"
    by (simp add: no_blocks_def c_str_def)
  from ctor_device_failure_exits [OF n, of no_blocks 3 1 "''x''", where ?'a = real] x
  have b: "(CUDAStream_ctor (cudaError 2) no_blocks 3 1 ''x'' :: (failure + real CUDAStream) \<times> heap) =
     (Inl (ProcessExit (- 1) ''x: cudaMalloc in CUDAStream::Allocate failed''),
      \<lparr>hostBlocks = [1, 1, 16], devBlocks = []\<rparr>)"
    by (simp add: no_blocks_def)
  from n a z b x show ?thesis by simp
qed

text \<open>
  C4 as stated fails: with a failing device allocator the construction of the example
  buffer ends in \<^verbatim>\<open>exit(-1)\<close>, not in an error returned to the caller, and host blocks
  of 2, 2 and 64 elements are outstanding.
\<close>

theorem ctor_device_failure_counterexample:
  "(CUDAStream_ctor (cudaError 2) no_blocks 20 2 ''forces'' :: (failure + real CUDAStream) \<times> heap) =
     (Inl (ProcessExit (- 1) ''forces: cudaMalloc in CUDAStream::Allocate failed''),
      \<lparr>hostBlocks = [2, 2, 64], devBlocks = []\<rparr>)"
  by code_simp

text \<open>
  C5, as the code has it. For \<open>length \<le> 2^32 - 16\<close> and a sub-stream count for which
  \<open>ceil(length / 16) * 16 * subStreams < 2^32\<close>, a construction whose device allocation
  succeeds yields \<open>stride = ceil(length / 16) * 16\<close>
  and a host block and a device block of \<open>stride * subStreams\<close> elements each; the stream
  is well-formed.
\<close>

theorem ctor_stride_and_extent:
  fixes len n :: u32
  assumes "unat len \<le> 2 ^ 32 - 16"
    and "nat \<lceil>real (unat len) / 16\<rceil> * 16 * unat n < 2 ^ 32"
  shows "\<exists>s. CUDAStream_ctor cudaSuccess h len n name =
           (Inr s,
            h\<lparr>hostBlocks := hostBlocks h @
                 [unat n, unat n, nat \<lceil>real (unat len) / 16\<rceil> * 16 * unat n],
              devBlocks := devBlocks h @ [nat \<lceil>real (unat len) / 16\<rceil> * 16 * unat n]\<rparr>)
         \<and> m_length s = len \<and> m_subStreams s = n
         \<and> unat (m_stride s) = nat \<lceil>real (unat len) / 16\<rceil> * 16
         \<and> length (m_pSysData s) = unat (m_stride s) * unat n
         \<and> length (m_pDevData s) = unat (m_stride s) * unat n
         \<and> stream_inv s"
proof -
  have a: "unat len + 15 < 2 ^ 32" using assms(1) by simp
  have b: "(unat len + 15) div 16 * 16 * unat n < 2 ^ 32"
    using assms(2) by (simp only: ceiling_div_16)
  from ctor_success [OF a b, of h name, where ?'a = 'a]
  show ?thesis by (simp only: ceiling_div_16)
qed

theorem ctor_stride_and_extent_witness:
  "unat (20 :: u32) \<le> 2 ^ 32 - 16 \<and>
   nat \<lceil>real (unat (20 :: u32)) / 16\<rceil> * 16 * unat (2 :: u32) < 2 ^ 32 \<and>
   (\<exists>s :: real CUDAStream.
      CUDAStream_ctor cudaSuccess no_blocks 20 2 ''forces'' =
        (Inr s, \<lparr>hostBlocks = [2, 2, 64], devBlocks = [64]\<rparr>)
      \<and> m_length s = 20 \<and> m_subStreams s = 2 \<and> unat (m_stride s) = 32
      \<and> length (m_pSysData s) = 64 \<and> length (m_pDevData s) = 64 \<and> stream_inv s)"
proof -
  have a: "unat (20 :: u32) \<le> 2 ^ 32 - 16" by simp
  have b: "nat \<lceil>real (unat (20 :: u32)) / 16\<rceil> * 16 * unat (2 :: u32) < 2 ^ 32"
    by (simp add: ceiling_div_16)
  have c: "nat \<lceil>real (unat (20 :: u32)) / 16\<rceil> * 16 = 32"
    by (simp add: ceiling_div_16)
  from ctor_stride_and_extent [OF a b, of no_blocks "''forces''", where ?'a = real]
  show ?thesis using a b unfolding c by (auto simp: no_blocks_def)
qed

text \<open>
  C5 as stated fails: \<^verbatim>\<open>length + 0xf\<close> wraps for \<open>length = 4294967295\<close>, the stride
  is 0 where \<open>ceil(length / 16) * 16\<close> is 4294967296, and both blocks have no element.
\<close>

theorem ctor_stride_counterexample:
  "(CUDAStream_ctor cudaSuccess no_blocks 0xFFFFFFFF 1 ''x'' :: (failure + real CUDAStream) \<times> heap) =
     (Inr \<lparr>m_length = 0xFFFFFFFF, m_subStreams = 1, m_stride = 0,
           m_pSysStream = [Some 0], m_pDevStream = [Some 0],
           m_pSysData = [], m_pDevData = [], m_name = ''x''\<rparr>,
      \<lparr>hostBlocks = [1, 1, 0], devBlocks = [0]\<rparr>)
   \<and> nat \<lceil>real (unat (0xFFFFFFFF :: u32)) / 16\<rceil> * 16 = 4294967296"
proof -
  have "(CUDAStream_ctor cudaSuccess no_blocks 0xFFFFFFFF 1 ''x'' :: (failure + real CUDAStream) \<times> heap) =
     (Inr \<lparr>m_length = 0xFFFFFFFF, m_subStreams = 1, m_stride = 0,
           m_pSysStream = [Some 0], m_pDevStream = [Some 0],
           m_pSysData = [], m_pDevData = [], m_name = ''x''\<rparr>,
      \<lparr>hostBlocks = [1, 1, 0], devBlocks = [0]\<rparr>)"
    by code_simp
  moreover have "nat \<lceil>real (unat (0xFFFFFFFF :: u32)) / 16\<rceil> * 16 = 4294967296"
    by (simp add: ceiling_div_16)
  ultimately show ?thesis by (rule conjI)
qed

text \<open>
  C6. \<^verbatim>\<open>Collapse\<close> never consults \<open>interleave\<close>: for every state and every
  \<open>newstreams\<close>, two calls that differ only in \<open>interleave\<close> have the same outcome,
  the same resulting state or the same failure.
\<close>

theorem Collapse_ignores_interleave:
  "Collapse newstreams i1 s = Collapse newstreams i2 s"
  by (simp add: Collapse_def Collapse_run_def)



text \<open>
  C8, as the code has it. For a well-formed stream and \<open>1 \<le> newstreams\<close> not larger
  than the view tables, with \<open>length * subStreams\<close> not divisible by \<open>newstreams\<close>:
  \<^verbatim>\<open>Collapse\<close> reports nothing; it completes with the length
  \<open>length * subStreams div newstreams\<close>, so the new shape holds fewer values than the
  old one.
\<close>

theorem Collapse_truncates_without_error:
  fixes s :: "'a CUDAStream"
  assumes "stream_inv s" and "0 < unat M" and "unat M \<le> length (m_pSysStream s)"
    and nd: "\<not> unat M dvd unat (m_length s) * unat (m_subStreams s)"
  shows "\<exists>s'. Collapse M il s = Inr s' \<and>
           unat (m_length s') = unat (m_length s) * unat (m_subStreams s) div unat M \<and>
           m_subStreams s' = M \<and>
           unat (m_length s') * unat (m_subStreams s') < unat (m_length s) * unat (m_subStreams s)"
proof -
  let ?LN = "unat (m_length s) * unat (m_subStreams s)"
  from Collapse_spec [OF assms(1-3), of il] obtain s' where
    r: "Collapse M il s = Inr s'" and c: "collapsed s M s'"
    by blast
  from c have f: "unat (m_length s') = ?LN div unat M" "m_subStreams s' = M"
    by (simp_all add: collapsed_def Let_def)
  have "?LN mod unat M \<noteq> 0" using nd by (simp add: dvd_eq_mod_eq_0)
  moreover have "?LN div unat M * unat M + ?LN mod unat M = ?LN" by simp
  ultimately have "?LN div unat M * unat M < ?LN" by linarith
  with r f show ?thesis by simp
qed

theorem Collapse_truncates_without_error_witness:
  "stream_inv triple_buffer \<and> 0 < unat (2 :: u32) \<and>
   unat (2 :: u32) \<le> length (m_pSysStream triple_buffer) \<and>
   \<not> unat (2 :: u32) dvd unat (m_length triple_buffer) * unat (m_subStreams triple_buffer) \<and>
   (\<exists>s'. Collapse 2 1 triple_buffer = Inr s' \<and> unat (m_length s') = 1 \<and> m_subStreams s' = 2 \<and>
      unat (m_length s') * unat (m_subStreams s') < 3)"
proof -
  have a: "0 < unat (2 :: u32)" by simp
  have b: "unat (2 :: u32) \<le> length (m_pSysStream triple_buffer)"
    by (simp add: triple_buffer_def)
  have c: "\<not> unat (2 :: u32) dvd unat (m_length triple_buffer) * unat (m_subStreams triple_buffer)"
    by (simp add: triple_buffer_def)
  have l: "unat (m_length triple_buffer) * unat (m_subStreams triple_buffer) = 3"
    by (simp add: triple_buffer_def)
  have d: "(3 :: nat) div unat (2 :: u32) = 1" by simp
  from Collapse_truncates_without_error [OF triple_buffer_inv a b c, of 1]
  show ?thesis using triple_buffer_inv a b c unfolding l d by blast
qed

text \<open>
  C8 as stated fails: three sub-streams of length 1 hold 1, 2, 3; \<^verbatim>\<open>Collapse(2, 1)\<close>
  (3 is odd) completes with two sub-streams of length 1 reading 1 and 2, and the 3 is
  gone.
\<close>

theorem Collapse_truncates_counterexample:
  "map_sum id (\<lambda>s. ((unat (m_length s) * unat (m_subStreams s)) mod 2,
                     substream s 0, substream s 1, substream s 2)) triple
     = Inr (1, [Some 1], [Some 2], [Some 3]) \<and>
   map_sum id (\<lambda>s. (m_length s, m_subStreams s, substream s 0, substream s 1))
       (bnd triple (Collapse 2 1))
     = Inr (1, 2, [Some 1], [Some 2])"
  by code_simp

text \<open>
  C9, as the code has it. In every state reached by a completed construction,
  \<^verbatim>\<open>Upload\<close>, \<^verbatim>\<open>Download\<close>, \<^verbatim>\<open>Collapse\<close> or store, for every \<open>i < subStreams\<close> whose
  product \<open>i * stride\<close> fits 32 bits (every \<open>i < subStreams\<close> when
  \<open>stride * subStreams < 2^32\<close>), the host view \<open>i\<close> is the host base plus \<open>i * stride\<close>
  and the device view \<open>i\<close> is the device base plus \<open>i * stride\<close>, for the current stride.
\<close>

theorem views_at_multiples_of_stride:
  assumes "reachable s" and "i < unat (m_subStreams s)"
    and fits: "i * unat (m_stride s) < 2 ^ 32"
  shows "i < length (m_pSysStream s) \<and> i < length (m_pDevStream s) \<and>
         m_pSysStream s ! i = Some (i * unat (m_stride s)) \<and>
         m_pDevStream s ! i = Some (i * unat (m_stride s))"
proof -
  have "unat (m_subStreams s) < 2 ^ 32"
    using unsigned_less [of "m_subStreams s", where ?'a = nat] by simp
  with assms(2) have u: "unat (of_nat i :: u32) = i" by (simp add: unat_of_nat)
  from fits have "unat (of_nat i :: u32) * unat (m_stride s) < 2 ^ 32" by (simp only: u)
  then have "unat (of_nat i * m_stride s) = unat (of_nat i :: u32) * unat (m_stride s)"
    by (rule unat_mult_small)
  then have e: "unat (of_nat i * m_stride s) = i * unat (m_stride s)" by (simp only: u)
  from views_wrapped [OF assms(1,2)] show ?thesis by (simp only: e)
qed

theorem views_at_multiples_of_stride_witness:
  "reachable scenario_buffer \<and> 1 < unat (m_subStreams scenario_buffer) \<and>
   1 * unat (m_stride scenario_buffer) < 2 ^ 32 \<and>
   1 < length (m_pSysStream scenario_buffer) \<and> 1 < length (m_pDevStream scenario_buffer) \<and>
   m_pSysStream scenario_buffer ! 1 = Some 32 \<and> m_pDevStream scenario_buffer ! 1 = Some 32"
proof -
  have i: "1 < unat (m_subStreams scenario_buffer)" by (simp add: scenario_buffer_def)
  have w: "1 * unat (m_stride scenario_buffer) < 2 ^ 32" by (simp add: scenario_buffer_def)
  from views_at_multiples_of_stride [OF scenario_buffer_reachable i w] scenario_buffer_reachable i w
  show ?thesis by (simp add: scenario_buffer_def)
qed

text \<open>
  C9 as stated fails: the construction with length \<open>0x80000000\<close> and four sub-streams
  completes with stride \<open>0x80000000\<close>; \<^verbatim>\<open>2 * _stride\<close> wraps to 0, so the host view 2 and
  the device view 2 are the bases themselves and not the bases plus \<open>2 * stride\<close>, which
  is 4294967296.
\<close>

theorem views_at_multiples_of_stride_counterexample:
  "map_sum id (\<lambda>s. (m_subStreams s, m_stride s, m_pSysStream s ! 2, m_pDevStream s ! 2))
     (fst (CUDAStream_ctor cudaSuccess no_blocks 0x80000000 4 ''x''
            :: (failure + real CUDAStream) \<times> heap))
     = Inr (4, 0x80000000, Some 0, Some 0) \<and>
   2 * unat (0x80000000 :: u32) = 4294967296"
proof -
  let ?s0 = "\<lparr>m_length = 0x80000000, m_subStreams = 4, m_stride = (0x80000000 + 0xf) AND 0xfffffff0,
        m_pSysStream = [], m_pDevStream = [], m_pSysData = ([] :: real option list),
        m_pDevData = [], m_name = ''x''\<rparr>"
  have st: "(0x80000000 + 0xf) AND 0xfffffff0 = (0x80000000 :: u32)" by simp
  from Allocate_success [of no_blocks ?s0]
  obtain sysS devS where
    a: "fst (Allocate cudaSuccess no_blocks ?s0) =
       Inr (?s0\<lparr>m_pSysStream := sysS, m_pDevStream := devS,
               m_pSysData := replicate (unat (4 * 0x80000000 :: u32)) None,
               m_pDevData := replicate (unat (0x80000000 * 4 :: u32)) None\<rparr>)"
    and sy: "sysS = map (\<lambda>i. Some (unat (of_nat i * (0x80000000 :: u32)))) [0..<unat (4 :: u32)]"
    and dv: "devS = map (\<lambda>i. Some (unat (of_nat i * (0x80000000 :: u32)))) [0..<unat (4 :: u32)]"
    by (auto simp: st)
  have sy': "sysS ! 2 = Some 0" by (simp add: sy upt_4)
  have dv': "devS ! 2 = Some 0" by (simp add: dv upt_4)
  have "map_sum id (\<lambda>s. (m_subStreams s, m_stride s, m_pSysStream s ! 2, m_pDevStream s ! 2))
     (fst (CUDAStream_ctor cudaSuccess no_blocks 0x80000000 4 ''x''
            :: (failure + real CUDAStream) \<times> heap))
     = Inr (4, 0x80000000, Some 0, Some 0)"
    unfolding CUDAStream_ctor_def a by (simp add: sy' dv')
  moreover have "2 * unat (0x80000000 :: u32) = 4294967296" by simp
  ultimately show ?thesis by (rule conjI)
qed

text \<open>
  C10, as the code has it. For a well-formed stream and \<open>1 \<le> newstreams\<close> not larger
  than the view tables, with \<open>newstreams\<close> dividing \<open>length * subStreams\<close> and
  \<open>stride * subStreams\<close>: \<^verbatim>\<open>Collapse\<close> completes, \<open>stride * subStreams\<close> is the same
  after as before, and each of the \<open>length * subStreams\<close> writes to the scratch block
  and to the host block has an index below \<open>stride * subStreams\<close>.
\<close>

theorem Collapse_capacity_and_bounds:
  fixes s :: "'a CUDAStream"
  assumes "stream_inv s" and "0 < unat M" and "unat M \<le> length (m_pSysStream s)"
    and "unat M dvd unat (m_length s) * unat (m_subStreams s)"
    and ds: "unat M dvd unat (m_stride s) * unat (m_subStreams s)"
  shows "\<exists>s' scratchWrites hostWrites.
           Collapse_run M il s = Inr (s', scratchWrites, hostWrites) \<and>
           unat (m_stride s') * unat (m_subStreams s') = unat (m_stride s) * unat (m_subStreams s) \<and>
           (\<forall>p \<in> set scratchWrites. p < unat (m_stride s) * unat (m_subStreams s)) \<and>
           (\<forall>p \<in> set hostWrites. p < unat (m_stride s) * unat (m_subStreams s)) \<and>
           length scratchWrites = unat (m_length s) * unat (m_subStreams s) \<and>
           length hostWrites = unat (m_length s) * unat (m_subStreams s)"
proof -
  let ?L = "unat (m_length s)" and ?N = "unat (m_subStreams s)" and ?S = "unat (m_stride s)"
  let ?m = "unat M"
  let ?ns = "?S * ?N div ?m" and ?nl = "?L * ?N div ?m"
  from Collapse_run_spec [OF assms(1-3), of il] obtain s' where
    r: "Collapse_run M il s =
          Inr (s', map (slot ?m ?ns) [0..<?L * ?N], map (slot ?m ?ns) [0..<?nl * ?m])"
    and c: "collapsed s M s'"
    by blast
  from c have f: "m_subStreams s' = M" "unat (m_stride s') = ?ns"
    by (simp_all add: collapsed_def Let_def)
  have cap: "?ns * ?m = ?S * ?N" using ds by simp
  have nlm: "?nl * ?m = ?L * ?N" using assms(4) by simp
  have LS: "?L \<le> ?S" using assms(1) by (simp add: stream_inv_def)
  have LN: "?L * ?N \<le> ?S * ?N" using LS by (rule mult_le_mono1)
  have b: "slot ?m ?ns k < ?S * ?N" if "k < ?L * ?N" for k
  proof -
    from that LN have "k < ?S * ?N" by linarith
    with assms(2) show ?thesis by (rule slot_bound)
  qed
  have "\<forall>p \<in> set (map (slot ?m ?ns) [0..<?L * ?N]). p < ?S * ?N"
    using b by auto
  moreover have "\<forall>p \<in> set (map (slot ?m ?ns) [0..<?nl * ?m]). p < ?S * ?N"
    using b by (auto simp: nlm)
  ultimately show ?thesis
    using r f cap nlm by (intro exI conjI) (assumption | simp)+
qed

theorem Collapse_capacity_and_bounds_witness:
  "stream_inv scenario_buffer \<and> 0 < unat (2 :: u32) \<and>
   unat (2 :: u32) \<le> length (m_pSysStream scenario_buffer) \<and>
   unat (2 :: u32) dvd unat (m_length scenario_buffer) * unat (m_subStreams scenario_buffer) \<and>
   unat (2 :: u32) dvd unat (m_stride scenario_buffer) * unat (m_subStreams scenario_buffer) \<and>
   (\<exists>s' scratchWrites hostWrites.
      Collapse_run 2 1 scenario_buffer = Inr (s', scratchWrites, hostWrites) \<and>
      unat (m_stride s') * unat (m_subStreams s') = 64 \<and>
      list_all (\<lambda>p. p < 64) scratchWrites \<and> list_all (\<lambda>p. p < 64) hostWrites \<and>
      length scratchWrites = 40 \<and> length hostWrites = 40)"
proof -
  have a: "0 < unat (2 :: u32)" by simp
  have b: "unat (2 :: u32) \<le> length (m_pSysStream scenario_buffer)"
    by (simp add: scenario_buffer_def)
  have c: "unat (2 :: u32) dvd unat (m_length scenario_buffer) * unat (m_subStreams scenario_buffer)"
    by (simp add: scenario_buffer_def)
  have d: "unat (2 :: u32) dvd unat (m_stride scenario_buffer) * unat (m_subStreams scenario_buffer)"
    by (simp add: scenario_buffer_def)
  have l: "unat (m_length scenario_buffer) * unat (m_subStreams scenario_buffer) = 40"
    "unat (m_stride scenario_buffer) * unat (m_subStreams scenario_buffer) = 64"
    by (simp_all add: scenario_buffer_def)
  from Collapse_capacity_and_bounds [OF scenario_buffer_inv a b c d, of 1]
  show ?thesis using scenario_buffer_inv a b c d unfolding l list_all_iff by blast
qed

text \<open>
  C10 as stated fails: 8 divides the 40 elements and the capacity 64 of the example
  buffer, and \<^verbatim>\<open>Collapse(8, 1)\<close> writes \<^verbatim>\<open>_pSysStream[2]\<close>, outside the table of two
  entries, before any write to the host block.
\<close>

theorem Collapse_capacity_counterexample:
  "(unat (m_length scenario_buffer) * unat (m_subStreams scenario_buffer)) mod 8 = 0 \<and>
   (unat (m_stride scenario_buffer) * unat (m_subStreams scenario_buffer)) mod 8 = 0 \<and>
   Collapse_run 8 1 scenario_buffer = Inl OutOfBounds"
  by code_simp

end
